theory Spec2Isabelle
  imports Main
begin

section \<open>The task collection\<close>

text \<open>
  A document of the \<^verbatim>\<open>Task\<close> model (\<^verbatim>\<open>models/Task.js\<close>, the schema at lines 3-41).
  \<^verbatim>\<open>_id\<close> is the ObjectId, written as its 24 lower-case hexadecimal digits (what
  \<^verbatim>\<open>toString\<close> gives). A string is the list of its code units, here the code units below
  256. \<^verbatim>\<open>order\<close> is a JavaScript number; the model holds the integer values. The
  database adds to an order (\<^verbatim>\<open>$inc\<close>) exactly when the order is a safe integer, of
  magnitude at most \<open>2^53 - 1\<close>, and so does the model; a statement below whose orders
  are not bounded by the size of a dense column asks for safe integers where it shifts
  one. The two timestamps \<^verbatim>\<open>createdAt\<close> and \<^verbatim>\<open>updatedAt\<close> are left out: no operation
  reads them.
\<close>

type_synonym object_id = string

record task =
  task_id :: object_id
  title :: string
  description :: string
  columnId :: string
  order :: int

text \<open>
  The collection is the list of its documents in insertion order.

  The schema declares a unique index on \<^verbatim>\<open>(columnId, order)\<close> (line 44), which
  \<^verbatim>\<open>server.js\<close> has the database build before it serves a request (lines 96-98,
  \<^verbatim>\<open>Task.createIndexes()\<close>). \<open>index_key\<close> is the key of a document in this index, and
  \<open>unique_orders\<close> says that no two documents have the same key: the invariant I1.
\<close>

type_synonym store = "task list"

definition index_key :: "task \<Rightarrow> string \<times> int" where
  "index_key d = (columnId d, order d)"

definition unique_orders :: "store \<Rightarrow> bool" where
  "unique_orders s = distinct (map (\<lambda>d. (columnId d, order d)) s)"

definition distinct_ids :: "store \<Rightarrow> bool" where
  "distinct_ids s = distinct (map task_id s)"

text \<open>The orders of one column, in collection order.\<close>

definition column_orders :: "store \<Rightarrow> string \<Rightarrow> int list" where
  "column_orders s c = map order (filter (\<lambda>d. columnId d = c) s)"

section \<open>Errors\<close>

text \<open>
  A thrown JavaScript error: a plain \<^verbatim>\<open>Error\<close> with its message, Mongoose's
  \<^verbatim>\<open>ValidationError\<close> with its \<^verbatim>\<open>errors\<close> object (one (path, message) entry per failed
  path), the driver's \<^verbatim>\<open>MongoServerError\<close> with its code and message, Mongoose's
  \<^verbatim>\<open>CastError\<close> with the value that could not be cast to an ObjectId, and Mongoose's
  \<^verbatim>\<open>DocumentNotFoundError\<close>. The handlers tell them apart by \<^verbatim>\<open>error.name\<close>,
  \<^verbatim>\<open>error.message\<close> and \<^verbatim>\<open>error.code\<close>.
\<close>

datatype js_error =
    Error string
  | ValidationError "(string \<times> string) list"
  | MongoServerError nat string
  | CastError string
  | DocumentNotFoundError

fun join :: "string \<Rightarrow> string list \<Rightarrow> string" where
  "join sep [] = []"
| "join sep [x] = x"
| "join sep (x # y # ys) = x @ sep @ join sep (y # ys)"

fun name :: "js_error \<Rightarrow> string" where
  "name (Error m) = ''Error''"
| "name (ValidationError es) = ''ValidationError''"
| "name (MongoServerError c m) = ''MongoServerError''"
| "name (CastError v) = ''CastError''"
| "name DocumentNotFoundError = ''DocumentNotFoundError''"

text \<open>
  The messages. Of the message of a \<^verbatim>\<open>DocumentNotFoundError\<close> only the beginning is
  kept, which the query and the model follow.
\<close>

fun message :: "js_error \<Rightarrow> string" where
  "message (Error m) = m"
| "message (ValidationError es) =
     ''Task validation failed: '' @ join '', '' (map (\<lambda>(p, m). p @ '': '' @ m) es)"
| "message (MongoServerError c m) = m"
| "message (CastError v) =
     ''Cast to ObjectId failed for value '' @ [CHR 0x22] @ v @ [CHR 0x22] @
     '' (type string) at path '' @ [CHR 0x22] @ ''_id'' @ [CHR 0x22] @
     '' for model '' @ [CHR 0x22] @ ''Task'' @ [CHR 0x22]"
| "message DocumentNotFoundError = ''No document found for query''"

text \<open>
  The error with which the database refuses a write that would give two documents the
  same key in a unique index. Its code is 11000; of its message only the beginning is
  kept, which the names of the collection and the index and the key follow.
\<close>

definition duplicate_key :: js_error where
  "duplicate_key = MongoServerError 11000 ''E11000 duplicate key error''"

section \<open>ObjectIds\<close>

text \<open>
  The test \<^verbatim>\<open>id.match(/^[0-9a-fA-F]{24}$/)\<close> of the PUT and DELETE handlers, and the cast
  that Mongoose applies to every \<^verbatim>\<open>_id\<close> of a query: 24 hexadecimal digits in either
  case are the ObjectId of those digits, and another string is a \<^verbatim>\<open>CastError\<close>. (Some
  versions of the driver also take a string of 12 bytes for an ObjectId; where a statement
  below depends on the outcome of a cast, the string has 24 hexadecimal digits or is
  \<^verbatim>\<open>abc\<close>.)
\<close>

definition valid_object_id :: "string \<Rightarrow> bool" where
  "valid_object_id i = (length i = 24 \<and> list_all (\<lambda>c. c \<in> set ''0123456789abcdefABCDEF'') i)"

definition lower_hex :: "char \<Rightarrow> char" where
  "lower_hex c =
     (if c = CHR ''A'' then CHR ''a'' else if c = CHR ''B'' then CHR ''b''
      else if c = CHR ''C'' then CHR ''c'' else if c = CHR ''D'' then CHR ''d''
      else if c = CHR ''E'' then CHR ''e'' else if c = CHR ''F'' then CHR ''f'' else c)"

definition castObjectId :: "string \<Rightarrow> js_error + object_id" where
  "castObjectId v = (if valid_object_id v then Inr (map lower_hex v) else Inl (CastError v))"

section \<open>Queries and writes\<close>

text \<open>
  \<^verbatim>\<open>Task.findById(id)\<close>: the id is cast, and the document with that \<^verbatim>\<open>_id\<close>, or null, is
  the result.
\<close>

definition findById :: "store \<Rightarrow> string \<Rightarrow> js_error + task option" where
  "findById s i =
     (case castObjectId i of
        Inl e \<Rightarrow> Inl e
      | Inr oid \<Rightarrow> Inr (find (\<lambda>d. task_id d = oid) s))"

text \<open>\<^verbatim>\<open>Task.findOne(filter)\<close>: the first document that matches, or null.\<close>

definition findOne :: "(task \<Rightarrow> bool) \<Rightarrow> store \<Rightarrow> task option" where
  "findOne P s = find P s"

text \<open>
  \<^verbatim>\<open>Task.updateOne(filter, update)\<close>: the first matching document is changed by the
  update \<open>f\<close>; when none matches nothing is written and nothing is raised. The unique
  index refuses the write when another document holds the new key.
\<close>

fun replace_first :: "(task \<Rightarrow> bool) \<Rightarrow> task \<Rightarrow> store \<Rightarrow> store" where
  "replace_first P d' [] = []"
| "replace_first P d' (d # ds) = (if P d then d' # ds else d # replace_first P d' ds)"

definition updateOne :: "(task \<Rightarrow> bool) \<Rightarrow> (task \<Rightarrow> task) \<Rightarrow> store \<Rightarrow> js_error + store" where
  "updateOne P f s =
     (case find P s of
        None \<Rightarrow> Inr s
      | Some d \<Rightarrow>
          if index_key (f d) \<in> set (map index_key (remove1 d s)) then Inl duplicate_key
          else Inr (replace_first P (f d) s))"

text \<open>
  \<^verbatim>\<open>Task.updateMany(filter, { $inc: { order: n } })\<close>. The database writes the matching
  documents one by one, and the unique index is checked at each of these writes: the
  first write that it refuses ends the statement with the error, and the documents
  written before it stay written. The matching documents are visited in the order of the
  index on \<^verbatim>\<open>(columnId, order)\<close>; every filter of the code fixes the column, so this is the
  ascending order of \<^verbatim>\<open>order\<close>. The result is the error, if any, and the collection as the
  statement leaves it.
\<close>

fun inc_each :: "task list \<Rightarrow> int \<Rightarrow> store \<Rightarrow> js_error option \<times> store" where
  "inc_each [] n s = (None, s)"
| "inc_each (t # ts) n s =
     (case updateOne (\<lambda>d. task_id d = task_id t) (\<lambda>d. d\<lparr>order := order d + n\<rparr>) s of
        Inl e \<Rightarrow> (Some e, s)
      | Inr s' \<Rightarrow> inc_each ts n s')"

definition updateMany :: "(task \<Rightarrow> bool) \<Rightarrow> int \<Rightarrow> store \<Rightarrow> js_error option \<times> store" where
  "updateMany P n s = inc_each (sort_key order (filter P s)) n s"

text \<open>
  \<^verbatim>\<open>Task.findByIdAndDelete(id)\<close>: the id is cast and the document with that \<^verbatim>\<open>_id\<close> is
  removed.
\<close>

fun delete_first :: "object_id \<Rightarrow> store \<Rightarrow> store" where
  "delete_first i [] = []"
| "delete_first i (d # ds) = (if task_id d = i then ds else d # delete_first i ds)"

definition findByIdAndDelete :: "string \<Rightarrow> store \<Rightarrow> js_error + store" where
  "findByIdAndDelete i s =
     (case castObjectId i of
        Inl e \<Rightarrow> Inl e
      | Inr oid \<Rightarrow> Inr (delete_first oid s))"

section \<open>Schema validation and saving\<close>

definition validColumns :: "string list" where
  "validColumns = [''todo'', ''in-progress'', ''completed'']"

text \<open>
  \<^verbatim>\<open>trim: true\<close> of the schema, \<^verbatim>\<open>String.prototype.trim\<close>: the white space and the line
  terminators of JavaScript among the code units below 256 are the tab, the line feed,
  the vertical tab, the form feed, the carriage return, the space and the no-break space
  U+00A0.
\<close>

definition is_space :: "char \<Rightarrow> bool" where
  "is_space c =
     (c \<in> set [CHR '' '', CHR 0x09, CHR 0x0A, CHR 0x0B, CHR 0x0C, CHR 0x0D, CHR 0xA0])"

definition trim :: "string \<Rightarrow> string" where
  "trim x = rev (dropWhile is_space (rev (dropWhile is_space x)))"

text \<open>The validators of the schema (lines 4-29), path by path.\<close>

definition validate_title :: "string \<Rightarrow> (string \<times> string) list" where
  "validate_title t =
     (if t = [] then [(''title'', ''Task title is required'')]
      else if length t < 5 then [(''title'', ''Title must be at least 5 characters long'')]
      else [])"

definition validate_columnId :: "string \<Rightarrow> (string \<times> string) list" where
  "validate_columnId c =
     (if c = [] then [(''columnId'', ''Column ID is required'')]
      else if c \<notin> set validColumns
        then [(''columnId'', ''Column ID must be one of: todo, in-progress, completed'')]
      else [])"

definition validate_order :: "int \<Rightarrow> (string \<times> string) list" where
  "validate_order n = (if n < 1 then [(''order'', ''Order must be at least 1'')] else [])"

definition validate :: "task \<Rightarrow> (string \<times> string) list" where
  "validate d = validate_title (title d) @ validate_columnId (columnId d) @ validate_order (order d)"

text \<open>
  \<^verbatim>\<open>doc.save()\<close>: the document is validated; a failed validation throws and writes
  nothing. A new document is inserted (\<open>save_new\<close>): the database refuses it when its
  \<^verbatim>\<open>_id\<close> or its key in the unique index is held by a stored document. A loaded document
  (\<open>save\<close>) has its changed paths, the column and the order, written to the stored document
  of the same \<^verbatim>\<open>_id\<close>, as one \<^verbatim>\<open>updateOne\<close>; Mongoose throws when that document is gone.
\<close>

definition save_new :: "task \<Rightarrow> store \<Rightarrow> js_error + store" where
  "save_new d s =
     (if validate d \<noteq> [] then Inl (ValidationError (validate d))
      else if task_id d \<in> set (map task_id s) \<or> index_key d \<in> set (map index_key s)
        then Inl duplicate_key
      else Inr (s @ [d]))"

definition save :: "task \<Rightarrow> store \<Rightarrow> js_error + store" where
  "save d s =
     (if validate d \<noteq> [] then Inl (ValidationError (validate d))
      else if find (\<lambda>x. task_id x = task_id d) s = None then Inl DocumentNotFoundError
      else updateOne (\<lambda>x. task_id x = task_id d)
             (\<lambda>x. x\<lparr>columnId := columnId d, order := order d\<rparr>) s)"

section \<open>The statics of the model\<close>

text \<open>
  The sum of two numbers of JavaScript that are integers: the exact sum, rounded to the
  nearest number with a significand of 53 bits, to the even one of two that are equally
  near. \<open>bit_length\<close> is the number of binary digits. (A sum of magnitude \<open>2^1024\<close> or more,
  which JavaScript gives as an infinity, is not told apart.)
\<close>

function bit_length :: "int \<Rightarrow> nat" where
  "bit_length n = (if n \<le> 0 then 0 else Suc (bit_length (n div 2)))"
  by pat_completeness auto

termination bit_length
  by (relation "measure nat") auto

declare bit_length.simps [simp del]

definition to_double :: "int \<Rightarrow> int" where
  "to_double x =
     (let a = \<bar>x\<bar>; l = bit_length a in
      if l \<le> 53 then x
      else
        let m = 2 ^ (l - 53); q = a div m; r = a mod m;
            q' = (if m < 2 * r \<or> (2 * r = m \<and> odd q) then q + 1 else q)
        in sgn x * (q' * m))"

text \<open>
  \<^verbatim>\<open>getNextOrder\<close> (lines 61-68): the task of the column with the largest order, found by
  \<^verbatim>\<open>findOne({ columnId }).sort({ order: -1 })\<close>, gives \<^verbatim>\<open>lastTask.order + 1\<close>, a sum of
  JavaScript; an empty column gives 1.
\<close>

definition getNextOrder :: "store \<Rightarrow> string \<Rightarrow> int" where
  "getNextOrder s c =
     (case column_orders s c of
        [] \<Rightarrow> 1
      | x # xs \<Rightarrow> to_double (Max (set (x # xs)) + 1))"

text \<open>
  \<^verbatim>\<open>reorderTasks\<close> (lines 71-82): one \<^verbatim>\<open>updateOne\<close> per entry, in the order of the
  list, each filtered by the entry's \<^verbatim>\<open>_id\<close>, which Mongoose casts to an ObjectId, and the
  column. The first entry whose cast or whose write throws ends the loop: the \<^verbatim>\<open>catch\<close>
  throws a plain \<^verbatim>\<open>Error\<close> with the prefix \<^verbatim>\<open>Failed to reorder tasks: \<close>, the entries
  before it stay written and the entries after it are not reached.
\<close>

record reorder_entry =
  entry_id :: string
  entry_order :: int

definition reorder_error :: "js_error \<Rightarrow> js_error" where
  "reorder_error e = Error (''Failed to reorder tasks: '' @ message e)"

fun reorderTasks :: "store \<Rightarrow> string \<Rightarrow> reorder_entry list \<Rightarrow> js_error option \<times> store" where
  "reorderTasks s c [] = (None, s)"
| "reorderTasks s c (u # us) =
     (case castObjectId (entry_id u) of
        Inl e \<Rightarrow> (Some (reorder_error e), s)
      | Inr oid \<Rightarrow>
          (case updateOne (\<lambda>d. task_id d = oid \<and> columnId d = c)
                  (\<lambda>d. d\<lparr>order := entry_order u\<rparr>) s of
             Inl e \<Rightarrow> (Some (reorder_error e), s)
           | Inr s' \<Rightarrow> reorderTasks s' c us))"

text \<open>
  \<^verbatim>\<open>moveTaskToColumn\<close> (lines 85-140). Every error thrown inside the \<^verbatim>\<open>try\<close> is
  caught and thrown again as a plain \<^verbatim>\<open>Error\<close> whose message has the prefix
  \<^verbatim>\<open>Failed to move task: \<close>. \<open>move_shifts\<close> is the part between the lookup and the save,
  the \<^verbatim>\<open>updateMany\<close> statements that shift the other tasks. The result is paired with the
  collection as the call leaves it: what was written before an error stays written.
\<close>

definition move_error :: "js_error \<Rightarrow> js_error" where
  "move_error e = Error (''Failed to move task: '' @ message e)"

definition move_shifts :: "task \<Rightarrow> string \<Rightarrow> int \<Rightarrow> store \<Rightarrow> js_error option \<times> store" where
  "move_shifts task newColumnId newOrder s =
     (let oldColumnId = columnId task; oldOrder = order task in
      if oldColumnId \<noteq> newColumnId then
        (case updateMany (\<lambda>d. columnId d = oldColumnId \<and> oldOrder < order d) (- 1) s of
           (Some e, s1) \<Rightarrow> (Some e, s1)
         | (None, s1) \<Rightarrow> updateMany (\<lambda>d. columnId d = newColumnId \<and> newOrder \<le> order d) 1 s1)
      else if newOrder < oldOrder then
        updateMany (\<lambda>d. columnId d = oldColumnId \<and> newOrder \<le> order d \<and> order d < oldOrder) 1 s
      else if oldOrder < newOrder then
        updateMany (\<lambda>d. columnId d = oldColumnId \<and> oldOrder < order d \<and> order d \<le> newOrder) (- 1) s
      else (None, s))"

definition moveTaskToColumn :: "store \<Rightarrow> string \<Rightarrow> string \<Rightarrow> int \<Rightarrow> (js_error + task) \<times> store" where
  "moveTaskToColumn s taskId newColumnId newOrder =
     (case findById s taskId of
        Inl e \<Rightarrow> (Inl (move_error e), s)
      | Inr None \<Rightarrow> (Inl (move_error (Error ''Task not found'')), s)
      | Inr (Some task) \<Rightarrow>
          (case move_shifts task newColumnId newOrder s of
             (Some e, s1) \<Rightarrow> (Inl (move_error e), s1)
           | (None, s1) \<Rightarrow>
               let task' = task\<lparr>columnId := newColumnId, order := newOrder\<rparr>
               in (case save task' s1 of
                     Inl e \<Rightarrow> (Inl (move_error e), s1)
                   | Inr s2 \<Rightarrow> (Inr task', s2))))"

section \<open>The request handlers\<close>

text \<open>
  A response is the HTTP status with the JSON body: an error message, a success message,
  one task, or a list of tasks.
\<close>

datatype body = ErrorMessage string | SuccessMessage string | TaskData task | TasksData "task list"

datatype response = Response nat body

text \<open>
  The \<^verbatim>\<open>order\<close> of the body of \<^verbatim>\<open>POST /api/tasks\<close>: absent, one of the values of JSON
  that JavaScript takes for false beside the number 0 (\<^verbatim>\<open>null\<close>, \<^verbatim>\<open>false\<close>, the empty
  string), or an integer. \<open>truthy\<close> is the negation of \<^verbatim>\<open>!taskOrder\<close>.
\<close>

datatype order_value = Missing | JNull | JFalse | JEmptyString | JNumber int

fun truthy :: "order_value \<Rightarrow> bool" where
  "truthy (JNumber k) = (k \<noteq> 0)"
| "truthy v = False"

fun the_number :: "order_value \<Rightarrow> int" where
  "the_number (JNumber k) = k"
| "the_number v = 0"

text \<open>
  \<^verbatim>\<open>POST /api/tasks\<close> (\<^verbatim>\<open>routes/tasks.js\<close>, lines 49-127), the insert operation. A missing
  title or column is the empty string; \<open>new_id\<close> is the ObjectId that the driver gives the
  new document. \<open>post_catch\<close> is the \<^verbatim>\<open>catch\<close> block, lines 102-126.
\<close>

definition post_catch :: "js_error \<Rightarrow> response" where
  "post_catch e =
     (case e of
        ValidationError es \<Rightarrow> Response 400 (ErrorMessage (join '', '' (map snd es)))
      | MongoServerError c m \<Rightarrow>
          if c = 11000 then
            Response 400 (ErrorMessage ''A task with this order already exists in the column'')
          else Response 500 (ErrorMessage ''Failed to create task'')
      | _ \<Rightarrow> Response 500 (ErrorMessage ''Failed to create task''))"

definition post_tasks ::
  "store \<Rightarrow> object_id \<Rightarrow> string \<Rightarrow> string \<Rightarrow> string \<Rightarrow> order_value \<Rightarrow> response \<times> store" where
  "post_tasks s new_id title_in description_in columnId_in order_in =
     (if title_in = [] \<or> columnId_in = [] then
        (Response 400 (ErrorMessage ''Title and columnId are required''), s)
      else if columnId_in \<notin> set validColumns then
        (Response 400
           (ErrorMessage ''Invalid columnId. Must be one of: todo, in-progress, completed''), s)
      else
        let (thrown, taskOrder, s1) =
              (if \<not> truthy order_in then (None, getNextOrder s columnId_in, s)
               else
                 let k = the_number order_in in
                 (case findOne (\<lambda>d. columnId d = columnId_in \<and> order d = k) s of
                    Some existingTask \<Rightarrow>
                      (case updateMany (\<lambda>d. columnId d = columnId_in \<and> k \<le> order d) 1 s of
                         (e, s') \<Rightarrow> (e, k, s'))
                  | None \<Rightarrow> (None, k, s)));
            task = \<lparr>task_id = new_id, title = trim title_in, description = trim description_in,
                     columnId = columnId_in, order = taskOrder\<rparr>
        in (case thrown of
              Some e \<Rightarrow> (post_catch e, s1)
            | None \<Rightarrow>
                (case save_new task s1 of
                   Inl e \<Rightarrow> (post_catch e, s1)
                 | Inr s2 \<Rightarrow> (Response 201 (TaskData task), s2))))"

text \<open>
  \<^verbatim>\<open>DELETE /api/tasks/:id\<close> (lines 218-258), the delete operation: the task is looked up,
  removed, and the tasks of its column with a larger order are shifted down by one. Every
  error thrown on the way is answered with the status 500.
\<close>

definition delete_task :: "store \<Rightarrow> string \<Rightarrow> response \<times> store" where
  "delete_task s i =
     (if \<not> valid_object_id i then (Response 400 (ErrorMessage ''Invalid task ID format''), s)
      else
        (case findById s i of
           Inl e \<Rightarrow> (Response 500 (ErrorMessage ''Failed to delete task''), s)
         | Inr None \<Rightarrow> (Response 404 (ErrorMessage ''Task not found''), s)
         | Inr (Some task) \<Rightarrow>
             (case findByIdAndDelete i s of
                Inl e \<Rightarrow> (Response 500 (ErrorMessage ''Failed to delete task''), s)
              | Inr s1 \<Rightarrow>
                  (case updateMany (\<lambda>d. columnId d = columnId task \<and> order task < order d) (- 1) s1 of
                     (Some e, s2) \<Rightarrow> (Response 500 (ErrorMessage ''Failed to delete task''), s2)
                   | (None, s2) \<Rightarrow>
                       (Response 200 (SuccessMessage ''Task deleted successfully''), s2)))))"

text \<open>
  \<^verbatim>\<open>PUT /api/tasks/:id\<close> (lines 130-215) for a body that holds both a column and an
  order, the move operation: the task is looked up and moved by \<open>moveTaskToColumn\<close>.
  (A body without one of them only rewrites the title and the description.)
  \<open>put_catch\<close> is the \<^verbatim>\<open>catch\<close> block, lines 192-214.
\<close>

definition put_catch :: "js_error \<Rightarrow> response" where
  "put_catch e =
     (if message e = ''Task not found'' then Response 404 (ErrorMessage ''Task not found'')
      else if name e = ''ValidationError'' then
        Response 400
          (ErrorMessage (join '', '' (case e of ValidationError es \<Rightarrow> map snd es | _ \<Rightarrow> [])))
      else Response 500 (ErrorMessage ''Failed to update task''))"

definition put_task :: "store \<Rightarrow> string \<Rightarrow> string \<Rightarrow> int \<Rightarrow> response \<times> store" where
  "put_task s i columnId_in order_in =
     (if \<not> valid_object_id i then (Response 400 (ErrorMessage ''Invalid task ID format''), s)
      else
        (case findById s i of
           Inl e \<Rightarrow> (put_catch e, s)
         | Inr None \<Rightarrow> (Response 404 (ErrorMessage ''Task not found''), s)
         | Inr (Some task) \<Rightarrow>
             if columnId_in \<notin> set validColumns then
               (Response 400
                  (ErrorMessage ''Invalid columnId. Must be one of: todo, in-progress, completed''),
                s)
             else
               (case moveTaskToColumn s i columnId_in order_in of
                  (Inr updatedTask, s') \<Rightarrow> (Response 200 (TaskData updatedTask), s')
                | (Inl e, s') \<Rightarrow> (put_catch e, s'))))"

text \<open>
  \<^verbatim>\<open>POST /api/tasks/reorder\<close> (lines 261-313), the bulk reorder: the entries are checked to
  have a truthy \<^verbatim>\<open>_id\<close> and a truthy \<^verbatim>\<open>order\<close>, \<open>reorderTasks\<close> is run, and the tasks of
  the column are answered sorted by order. An error of \<open>reorderTasks\<close> is answered with the
  status 500.
\<close>

definition post_reorder :: "store \<Rightarrow> string \<Rightarrow> reorder_entry list \<Rightarrow> response \<times> store" where
  "post_reorder s c tasks =
     (if c = [] then (Response 400 (ErrorMessage ''columnId and tasks array are required''), s)
      else if c \<notin> set validColumns then
        (Response 400
           (ErrorMessage ''Invalid columnId. Must be one of: todo, in-progress, completed''), s)
      else if list_ex (\<lambda>u. entry_id u = [] \<or> entry_order u = 0) tasks then
        (Response 400 (ErrorMessage ''Each task must have _id and order fields''), s)
      else
        (case reorderTasks s c tasks of
           (Some e, s') \<Rightarrow> (Response 500 (ErrorMessage ''Failed to reorder tasks''), s')
         | (None, s') \<Rightarrow>
             (Response 200 (TasksData (sort_key order (filter (\<lambda>d. columnId d = c) s'))), s')))"

section \<open>Sequences of operations\<close>

text \<open>
  The five operations of the ordering engine: insert and delete are the bodies of their
  handlers, move, bulk reorder and next order are the statics of the model. \<open>execute\<close>
  gives the collection that one operation leaves, whether it ends with a result or with
  an error, and \<open>run\<close> the collection after a sequence of them, one after the other.
\<close>

datatype operation =
    InsertTask object_id string string string order_value
  | DeleteTask string
  | MoveTask string string int
  | BulkReorder string "reorder_entry list"
  | ComputeNextOrder string

fun execute :: "store \<Rightarrow> operation \<Rightarrow> store" where
  "execute s (InsertTask new_id t d c k) = snd (post_tasks s new_id t d c k)"
| "execute s (DeleteTask i) = snd (delete_task s i)"
| "execute s (MoveTask i c n) = snd (moveTaskToColumn s i c n)"
| "execute s (BulkReorder c us) = snd (reorderTasks s c us)"
| "execute s (ComputeNextOrder c) = (let n = getNextOrder s c in s)"

fun run :: "store \<Rightarrow> operation list \<Rightarrow> store" where
  "run s [] = s"
| "run s (op # ops) = run (execute s op) ops"

section \<open>Conditions on collections\<close>

text \<open>
  A column is dense when its \<open>N\<close> tasks carry exactly the orders \<open>1..N\<close> (I2).
\<close>

definition dense :: "store \<Rightarrow> string \<Rightarrow> bool" where
  "dense s c = (distinct (column_orders s c) \<and>
                set (column_orders s c) = {1 .. int (length (column_orders s c))})"

text \<open>
  The list of a bulk reorder is a valid permutation for a column when it names each task
  of the column once and gives the orders \<open>1..N\<close>, each once.
\<close>

definition valid_permutation :: "store \<Rightarrow> string \<Rightarrow> reorder_entry list \<Rightarrow> bool" where
  "valid_permutation s c us =
     (distinct (map entry_id us) \<and>
      set (map entry_id us) = set (map task_id (filter (\<lambda>d. columnId d = c) s)) \<and>
      distinct (map entry_order us) \<and>
      set (map entry_order us) = {1 .. int (length (filter (\<lambda>d. columnId d = c) s))})"

text \<open>The largest safe integer of JavaScript, \<open>2^53 - 1\<close>.\<close>

definition MAX_SAFE_INTEGER :: int where
  "MAX_SAFE_INTEGER = 9007199254740991"

section \<open>Sample boards\<close>

text \<open>
  The tasks of the scenarios: A, B, C in the column todo with the orders 1, 2, 3, and D, E
  in the column in-progress with the orders 1, 2.
\<close>

definition id_A :: object_id where "id_A = ''64a7b8c9d1e2f3a4b5c6d7a1''"
definition id_B :: object_id where "id_B = ''64a7b8c9d1e2f3a4b5c6d7b2''"
definition id_C :: object_id where "id_C = ''64a7b8c9d1e2f3a4b5c6d7c3''"
definition id_D :: object_id where "id_D = ''64a7b8c9d1e2f3a4b5c6d7d4''"
definition id_E :: object_id where "id_E = ''64a7b8c9d1e2f3a4b5c6d7e5''"
definition id_N :: object_id where "id_N = ''64a7b8c9d1e2f3a4b5c6d7f6''"

definition mk_task :: "object_id \<Rightarrow> string \<Rightarrow> string \<Rightarrow> int \<Rightarrow> task" where
  "mk_task i t c n = \<lparr>task_id = i, title = t, description = [], columnId = c, order = n\<rparr>"

definition task_A :: task where "task_A = mk_task id_A ''Task A'' ''todo'' 1"
definition task_B :: task where "task_B = mk_task id_B ''Task B'' ''todo'' 2"
definition task_C :: task where "task_C = mk_task id_C ''Task C'' ''todo'' 3"
definition task_D :: task where "task_D = mk_task id_D ''Task D'' ''in-progress'' 1"
definition task_E :: task where "task_E = mk_task id_E ''Task E'' ''in-progress'' 2"

definition todo_board :: store where
  "todo_board = [task_A, task_B, task_C]"

definition board :: store where
  "board = [task_A, task_B, task_C, task_D, task_E]"

lemmas sample_defs =
  id_A_def id_B_def id_C_def id_D_def id_E_def id_N_def mk_task_def
  task_A_def task_B_def task_C_def task_D_def task_E_def todo_board_def board_def

lemmas eval_defs =
  moveTaskToColumn_def move_shifts_def updateMany_def updateOne_def save_def save_new_def
  validate_def validate_title_def validate_columnId_def validate_order_def validColumns_def
  findById_def findOne_def findByIdAndDelete_def castObjectId_def valid_object_id_def
  lower_hex_def index_key_def move_error_def reorder_error_def duplicate_key_def
  post_tasks_def post_catch_def put_task_def put_catch_def delete_task_def post_reorder_def
  getNextOrder_def column_orders_def trim_def is_space_def Let_def

section \<open>Facts about the primitives\<close>

lemma unique_orders_key: "unique_orders s = distinct (map index_key s)"
  by (simp add: unique_orders_def index_key_def [abs_def])

lemma castObjectId_valid: "valid_object_id i \<Longrightarrow> castObjectId i = Inr (map lower_hex i)"
  by (simp add: castObjectId_def)

lemma findById_Some:
  "findById s i = Inr (Some t) \<Longrightarrow> valid_object_id i \<and> task_id t = map lower_hex i \<and> t \<in> set s"
  by (auto simp: findById_def castObjectId_def find_Some_iff split: if_splits)

lemma findById_None:
  "valid_object_id i \<Longrightarrow> map lower_hex i \<notin> set (map task_id s) \<Longrightarrow> findById s i = Inr None"
proof -
  assume "valid_object_id i" and "map lower_hex i \<notin> set (map task_id s)"
  then have "\<forall>d\<in>set s. task_id d \<noteq> map lower_hex i"
    by (metis image_eqI set_map)
  then have "find (\<lambda>d. task_id d = map lower_hex i) s = None"
    by (simp add: find_None_iff)
  then show ?thesis
    using \<open>valid_object_id i\<close> by (simp add: findById_def castObjectId_def)
qed

lemma distinct_ids_eq:
  "distinct_ids s \<Longrightarrow> d \<in> set s \<Longrightarrow> t \<in> set s \<Longrightarrow> task_id d = task_id t \<Longrightarrow> d = t"
  by (auto simp: distinct_ids_def distinct_map inj_on_def)

lemma find_id_member:
  "distinct_ids s \<Longrightarrow> t \<in> set s \<Longrightarrow> find (\<lambda>d. task_id d = task_id t) s = Some t"
proof (induction s)
  case Nil
  then show ?case by simp
next
  case (Cons d ds)
  then have ds: "distinct_ids ds" and fresh: "task_id d \<notin> task_id ` set ds"
    by (simp_all add: distinct_ids_def)
  show ?case
  proof (cases "t = d")
    case True
    then show ?thesis by simp
  next
    case False
    then have "t \<in> set ds" using Cons.prems(2) by simp
    then have "task_id d \<noteq> task_id t" using fresh by (metis image_eqI)
    then show ?thesis
      using Cons.IH [OF ds \<open>t \<in> set ds\<close>] by simp
  qed
qed

lemma findOne_None: "findOne P s = None \<longleftrightarrow> \<not> (\<exists>d\<in>set s. P d)"
  by (auto simp: findOne_def find_None_iff)

lemma not_empty_validColumns: "c \<in> set validColumns \<Longrightarrow> c \<noteq> []"
  by (auto simp: validColumns_def)

lemma trim_Nil: "trim [] = []"
  by (simp add: trim_def)

lemma validate_title_trim: "validate_title (trim x) = [] \<Longrightarrow> x \<noteq> []"
  by (auto simp: trim_Nil validate_title_def)

lemma validate_new:
  "validate_title t = [] \<Longrightarrow> c \<in> set validColumns \<Longrightarrow> 1 \<le> n
     \<Longrightarrow> validate \<lparr>task_id = i, title = t, description = d, columnId = c, order = n\<rparr> = []"
  by (auto simp: validate_def validate_columnId_def validate_order_def validColumns_def)

subsection \<open>Every write keeps the keys of the unique index distinct\<close>

lemma set_replace_first: "set (replace_first P d' s) \<subseteq> insert d' (set s)"
  by (induction s) auto

lemma replace_first_distinct:
  "find P s = Some d \<Longrightarrow> distinct (map g s) \<Longrightarrow> g d' \<notin> set (map g (remove1 d s))
     \<Longrightarrow> distinct (map g (replace_first P d' s))"
proof (induction s)
  case Nil
  then show ?case by simp
next
  case (Cons x xs)
  show ?case
  proof (cases "P x")
    case True
    then have "d = x" using Cons.prems(1) by simp
    then show ?thesis
      using True Cons.prems(2,3) by simp
  next
    case False
    then have found: "find P xs = Some d" using Cons.prems(1) by simp
    then have "P d" by (auto simp: find_Some_iff)
    then have "x \<noteq> d" using False by auto
    then have rem: "remove1 d (x # xs) = x # remove1 d xs" by simp
    have new: "g d' \<noteq> g x" "g d' \<notin> set (map g (remove1 d xs))"
      using Cons.prems(3) unfolding rem by auto
    have IH: "distinct (map g (replace_first P d' xs))"
      using Cons.IH [OF found _ new(2)] Cons.prems(2) by simp
    have "g x \<notin> g ` set xs" using Cons.prems(2) by simp
    then have "g x \<notin> g ` insert d' (set xs)" using new(1) by auto
    then have "g x \<notin> g ` set (replace_first P d' xs)"
      using set_replace_first [of P d' xs] by blast
    then show ?thesis
      using False IH by simp
  qed
qed

lemma updateOne_unique:
  assumes "unique_orders s" and "updateOne P f s = Inr s'"
  shows "unique_orders s'"
proof (cases "find P s")
  case None
  then show ?thesis using assms by (simp add: updateOne_def)
next
  case (Some d)
  then have free: "index_key (f d) \<notin> set (map index_key (remove1 d s))"
    and s': "s' = replace_first P (f d) s"
    using assms(2) by (auto simp: updateOne_def split: if_splits)
  show ?thesis
    unfolding s' unique_orders_key
    using Some assms(1) free unfolding unique_orders_key by (rule replace_first_distinct)
qed

lemma inc_each_unique: "unique_orders s \<Longrightarrow> unique_orders (snd (inc_each ts n s))"
proof (induction ts arbitrary: s)
  case Nil
  then show ?case by simp
next
  case (Cons t ts)
  show ?case
  proof (cases "updateOne (\<lambda>d. task_id d = task_id t) (\<lambda>d. d\<lparr>order := order d + n\<rparr>) s")
    case (Inl e)
    then show ?thesis using Cons.prems by simp
  next
    case (Inr s')
    then have "unique_orders s'" using Cons.prems updateOne_unique by blast
    then show ?thesis using Inr Cons.IH by simp
  qed
qed

lemma updateMany_unique: "unique_orders s \<Longrightarrow> updateMany P n s = (e, s') \<Longrightarrow> unique_orders s'"
  using inc_each_unique [of s "sort_key order (filter P s)" n] by (simp add: updateMany_def)

lemma delete_first_distinct: "distinct (map g s) \<Longrightarrow> distinct (map g (delete_first i s))"
proof (induction s)
  case Nil
  then show ?case by simp
next
  case (Cons d ds)
  have "set (delete_first i ds) \<subseteq> set ds" for i
    by (induction ds) auto
  then have "g d \<notin> g ` set (delete_first i ds)"
    using Cons.prems by auto
  then show ?case using Cons by simp
qed

lemma findByIdAndDelete_unique:
  "unique_orders s \<Longrightarrow> findByIdAndDelete i s = Inr s' \<Longrightarrow> unique_orders s'"
  by (auto simp: findByIdAndDelete_def unique_orders_key delete_first_distinct
      split: sum.splits)

lemma save_unique: "unique_orders s \<Longrightarrow> save d s = Inr s' \<Longrightarrow> unique_orders s'"
  by (auto simp: save_def updateOne_unique split: if_splits)

lemma save_new_unique: "unique_orders s \<Longrightarrow> save_new d s = Inr s' \<Longrightarrow> unique_orders s'"
  by (auto simp: save_new_def unique_orders_key split: if_splits)

lemma reorderTasks_unique: "unique_orders s \<Longrightarrow> unique_orders (snd (reorderTasks s c us))"
proof (induction us arbitrary: s)
  case Nil
  then show ?case by simp
next
  case (Cons u us)
  show ?case
  proof (cases "castObjectId (entry_id u)")
    case (Inl e)
    then show ?thesis using Cons.prems by simp
  next
    case (Inr oid)
    show ?thesis
    proof (cases "updateOne (\<lambda>d. task_id d = oid \<and> columnId d = c)
                    (\<lambda>d. d\<lparr>order := entry_order u\<rparr>) s")
      case (Inl e)
      then show ?thesis using Cons.prems \<open>castObjectId (entry_id u) = Inr oid\<close> by simp
    next
      case inner: (Inr s')
      then have "unique_orders s'" using Cons.prems updateOne_unique by blast
      then show ?thesis using Inr inner Cons.IH by simp
    qed
  qed
qed

lemma move_shifts_unique:
  assumes "unique_orders s" and "move_shifts t c n s = (e, s')"
  shows "unique_orders s'"
proof (cases "columnId t \<noteq> c")
  case True
  obtain e1 s1 where first:
    "updateMany (\<lambda>d. columnId d = columnId t \<and> order t < order d) (- 1) s = (e1, s1)"
    by (cases "updateMany (\<lambda>d. columnId d = columnId t \<and> order t < order d) (- 1) s")
  have s1: "unique_orders s1"
    using assms(1) first by (rule updateMany_unique)
  show ?thesis
  proof (cases e1)
    case (Some err)
    then show ?thesis
      using assms(2) True first s1 by (simp add: move_shifts_def Let_def)
  next
    case None
    then have "updateMany (\<lambda>d. columnId d = c \<and> n \<le> order d) 1 s1 = (e, s')"
      using assms(2) True first by (simp add: move_shifts_def Let_def)
    with s1 show ?thesis by (rule updateMany_unique)
  qed
next
  case False
  consider "n < order t" | "order t < n" | "n = order t" by linarith
  then show ?thesis
  proof cases
    case 1
    then have "updateMany (\<lambda>d. columnId d = columnId t \<and> n \<le> order d \<and> order d < order t) 1 s
                 = (e, s')"
      using assms(2) False by (simp add: move_shifts_def Let_def)
    with assms(1) show ?thesis by (rule updateMany_unique)
  next
    case 2
    then have "updateMany (\<lambda>d. columnId d = columnId t \<and> order t < order d \<and> order d \<le> n) (- 1) s
                 = (e, s')"
      using assms(2) False by (simp add: move_shifts_def Let_def)
    with assms(1) show ?thesis by (rule updateMany_unique)
  next
    case 3
    then show ?thesis
      using assms False by (simp add: move_shifts_def Let_def)
  qed
qed

lemma moveTaskToColumn_unique:
  assumes "unique_orders s"
  shows "unique_orders (snd (moveTaskToColumn s i c n))"
proof (cases "findById s i")
  case (Inl e)
  then show ?thesis using assms by (simp add: moveTaskToColumn_def)
next
  case (Inr found)
  show ?thesis
  proof (cases found)
    case None
    then show ?thesis using assms Inr by (simp add: moveTaskToColumn_def)
  next
    case (Some t)
    obtain e s1 where shifts: "move_shifts t c n s = (e, s1)"
      by (cases "move_shifts t c n s")
    have s1: "unique_orders s1"
      using assms shifts by (rule move_shifts_unique)
    show ?thesis
    proof (cases e)
      case (Some err)
      then show ?thesis
        using Inr \<open>found = Some t\<close> shifts s1 by (simp add: moveTaskToColumn_def)
    next
      case None
      show ?thesis
      proof (cases "save (t\<lparr>columnId := c, order := n\<rparr>) s1")
        case (Inl err)
        then show ?thesis
          using Inr \<open>found = Some t\<close> shifts s1 None by (simp add: moveTaskToColumn_def)
      next
        case saved: (Inr s2)
        then have "unique_orders s2" using s1 save_unique by blast
        then show ?thesis
          using Inr \<open>found = Some t\<close> shifts None saved by (simp add: moveTaskToColumn_def)
      qed
    qed
  qed
qed

lemma post_tasks_unique:
  assumes "unique_orders s"
  shows "unique_orders (snd (post_tasks s i ti de c v))"
proof -
  have shifted: "unique_orders s1" if "updateMany P n s = (e, s1)" for P n e s1
    using assms that by (rule updateMany_unique)
  have saved: "unique_orders s2" if "unique_orders s1" "save_new d s1 = Inr s2" for d s1 s2
    using that by (rule save_new_unique)
  show ?thesis
    using assms
    by (auto simp: post_tasks_def Let_def dest: shifted saved
        split: prod.splits option.splits sum.splits if_splits)
qed

lemma delete_task_unique:
  assumes "unique_orders s"
  shows "unique_orders (snd (delete_task s i))"
proof -
  have shifted: "unique_orders s2"
    if "findByIdAndDelete i s = Inr s1" "updateMany P n s1 = (e, s2)" for P n s1 e s2
  proof -
    have "unique_orders s1" using assms that(1) by (rule findByIdAndDelete_unique)
    then show ?thesis using that(2) by (rule updateMany_unique)
  qed
  show ?thesis
    using assms
    by (auto simp: delete_task_def dest: shifted
        split: sum.splits option.splits prod.splits)
qed

lemma execute_unique: "unique_orders s \<Longrightarrow> unique_orders (execute s op)"
  by (cases op)
    (simp_all add: post_tasks_unique delete_task_unique moveTaskToColumn_unique
      reorderTasks_unique)

subsection \<open>Writes in a collection with distinct ids\<close>

lemma remove1_by_id:
  "distinct_ids s \<Longrightarrow> t \<in> set s \<Longrightarrow> set (remove1 t s) = {x \<in> set s. x \<noteq> t}"
proof -
  assume "distinct_ids s" and "t \<in> set s"
  then have "distinct s"
    by (simp add: distinct_ids_def distinct_map)
  then show ?thesis by auto
qed

lemma replace_first_by_id:
  "distinct_ids s \<Longrightarrow> t \<in> set s \<Longrightarrow>
   replace_first (\<lambda>d. task_id d = task_id t) t' s = map (\<lambda>d. if d = t then t' else d) s"
proof (induction s)
  case Nil
  then show ?case by simp
next
  case (Cons d ds)
  then have ds: "distinct_ids ds" and fresh: "task_id d \<notin> task_id ` set ds"
    by (simp_all add: distinct_ids_def)
  show ?case
  proof (cases "d = t")
    case True
    then have "\<forall>x\<in>set ds. x \<noteq> t"
      using fresh by (metis image_eqI)
    then have "map (\<lambda>d. if d = t then t' else d) ds = ds"
      by (simp add: map_idI)
    with True show ?thesis by simp
  next
    case False
    then have "t \<in> set ds" using Cons.prems(2) by simp
    then have "task_id d \<noteq> task_id t" using fresh by (metis image_eqI)
    then show ?thesis
      using False Cons.IH [OF ds \<open>t \<in> set ds\<close>] by simp
  qed
qed

lemma updateOne_by_id:
  assumes "distinct_ids s" and "t \<in> set s"
  shows "updateOne (\<lambda>d. task_id d = task_id t) f s =
           (if \<exists>x\<in>set s. x \<noteq> t \<and> index_key x = index_key (f t) then Inl duplicate_key
            else Inr (map (\<lambda>d. if d = t then f t else d) s))"
proof -
  have "index_key (f t) \<in> set (map index_key (remove1 t s)) \<longleftrightarrow>
          (\<exists>x\<in>set s. x \<noteq> t \<and> index_key x = index_key (f t))"
    using remove1_by_id [OF assms] by (auto simp: image_iff)
  then show ?thesis
    using find_id_member [OF assms] replace_first_by_id [OF assms]
    by (simp add: updateOne_def)
qed

lemma updateOne_no_match: "\<forall>d\<in>set s. \<not> P d \<Longrightarrow> updateOne P f s = Inr s"
proof -
  assume "\<forall>d\<in>set s. \<not> P d"
  then have "find P s = None" by (simp add: find_None_iff)
  then show ?thesis by (simp add: updateOne_def)
qed

text \<open>
  When an \<^verbatim>\<open>updateMany\<close> goes through: no document outside the visited ones holds a key
  that a visited one is given, and no visited document is given the key that one visited
  after it still holds, or the key that one visited before it was given.
\<close>

lemma inc_each_ok:
  assumes "distinct_ids s" and "set ts \<subseteq> set s" and "\<forall>t\<in>set ts. columnId t = c"
    and "sorted_wrt (\<lambda>t u. order u \<noteq> order t + n \<and> order u \<noteq> order t) ts"
    and "\<forall>t\<in>set ts. \<forall>d\<in>set s. d \<notin> set ts \<longrightarrow> columnId d = c \<longrightarrow> order d \<noteq> order t + n"
  shows "inc_each ts n s =
           (None, map (\<lambda>d. if d \<in> set ts then d\<lparr>order := order d + n\<rparr> else d) s)"
  using assms
proof (induction ts arbitrary: s)
  case Nil
  then show ?case by (simp add: map_idI)
next
  case (Cons t ts)
  let ?t' = "t\<lparr>order := order t + n\<rparr>"
  let ?s' = "map (\<lambda>d. if d = t then ?t' else d) s"
  have t: "t \<in> set s" "columnId t = c"
    using Cons.prems(2,3) by simp_all
  have later: "\<forall>u\<in>set ts. order u \<noteq> order t + n \<and> order u \<noteq> order t"
    and sorted: "sorted_wrt (\<lambda>t u. order u \<noteq> order t + n \<and> order u \<noteq> order t) ts"
    using Cons.prems(4) by simp_all
  have not_t: "u \<noteq> t" if "u \<in> set ts" for u
    using later that by auto
  have free: "\<not> (\<exists>x\<in>set s. x \<noteq> t \<and> index_key x = index_key ?t')"
  proof
    assume "\<exists>x\<in>set s. x \<noteq> t \<and> index_key x = index_key ?t'"
    then obtain x where x: "x \<in> set s" "x \<noteq> t" "columnId x = c" "order x = order t + n"
      using t(2) by (auto simp: index_key_def)
    show False
    proof (cases "x \<in> set ts")
      case True
      then show False using later x(4) by auto
    next
      case False
      then have "x \<notin> set (t # ts)" using x(2) by simp
      moreover have "t \<in> set (t # ts)" by simp
      ultimately show False
        using Cons.prems(5) x(1,3,4) by blast
    qed
  qed
  have step: "updateOne (\<lambda>d. task_id d = task_id t) (\<lambda>d. d\<lparr>order := order d + n\<rparr>) s = Inr ?s'"
    using free by (simp add: updateOne_by_id [OF Cons.prems(1) t(1)])
  have ids': "map task_id ?s' = map task_id s"
    by (simp add: comp_def if_distrib [of task_id] cong: if_cong)
  have d1: "distinct_ids ?s'"
    using Cons.prems(1) by (simp only: distinct_ids_def ids')
  have sub: "set ts \<subseteq> set ?s'"
  proof
    fix u assume u: "u \<in> set ts"
    then have "u \<in> set s" "u \<noteq> t" using Cons.prems(2) not_t by auto
    then show "u \<in> set ?s'" by (auto simp: image_iff)
  qed
  have fresh: "?t' \<notin> set ts"
  proof
    assume "?t' \<in> set ts"
    then have "?t' \<in> set s" "?t' \<noteq> t" using Cons.prems(2) not_t by auto
    moreover have "task_id ?t' = task_id t" by simp
    ultimately show False
      using distinct_ids_eq [OF Cons.prems(1) _ t(1)] by blast
  qed
  have cols: "\<forall>u\<in>set ts. columnId u = c"
    using Cons.prems(3) by simp
  have others: "\<forall>u\<in>set ts. \<forall>d\<in>set ?s'. d \<notin> set ts \<longrightarrow> columnId d = c
                  \<longrightarrow> order d \<noteq> order u + n"
  proof (intro ballI impI)
    fix u d
    assume u: "u \<in> set ts" and d: "d \<in> set ?s'" "d \<notin> set ts" "columnId d = c"
    from d(1) consider "d = ?t'" | "d \<in> set s" "d \<noteq> t"
      by (auto split: if_splits)
    then show "order d \<noteq> order u + n"
    proof cases
      case 1
      then show ?thesis using later u by auto
    next
      case 2
      then have "d \<notin> set (t # ts)" using d(2) by simp
      moreover have "u \<in> set (t # ts)" using u by simp
      ultimately show ?thesis
        using Cons.prems(5) 2(1) d(3) by blast
    qed
  qed
  have IH: "inc_each ts n ?s' =
              (None, map (\<lambda>d. if d \<in> set ts then d\<lparr>order := order d + n\<rparr> else d) ?s')"
    using d1 sub cols sorted others by (rule Cons.IH)
  have "map (\<lambda>d. if d \<in> set ts then d\<lparr>order := order d + n\<rparr> else d) ?s' =
        map (\<lambda>d. if d \<in> set (t # ts) then d\<lparr>order := order d + n\<rparr> else d) s"
    using fresh not_t by (auto simp: comp_def)
  then show ?case
    using step IH by simp
qed

lemma sorted_wrt_pairwise:
  "distinct xs \<Longrightarrow> (\<And>x y. x \<in> set xs \<Longrightarrow> y \<in> set xs \<Longrightarrow> x \<noteq> y \<Longrightarrow> R x y) \<Longrightarrow> sorted_wrt R xs"
  by (induction xs) auto

lemma unique_orders_column: "unique_orders s \<Longrightarrow> distinct (column_orders s c)"
proof -
  assume "unique_orders s"
  then have d: "distinct s" and inj: "inj_on (\<lambda>d. (columnId d, order d)) (set s)"
    by (simp_all add: unique_orders_def distinct_map)
  have "inj_on order (set (filter (\<lambda>d. columnId d = c) s))"
    using inj by (auto simp: inj_on_def)
  then show ?thesis
    using d by (simp add: column_orders_def distinct_map)
qed

lemma column_inj:
  "distinct (column_orders s c) \<Longrightarrow> d \<in> set s \<Longrightarrow> e \<in> set s \<Longrightarrow> columnId d = c
     \<Longrightarrow> columnId e = c \<Longrightarrow> order d = order e \<Longrightarrow> d = e"
  by (auto simp: column_orders_def distinct_map inj_on_def)

text \<open>
  Closing a gap: when no task of the column holds the order \<open>g\<close>, the decrement of the
  tasks above \<open>g\<close>, visited in ascending order, is never refused.
\<close>

lemma updateMany_close_gap:
  assumes "distinct_ids s" and "distinct (column_orders s c)"
    and "\<forall>d\<in>set s. \<not> (columnId d = c \<and> order d = g)"
  shows "updateMany (\<lambda>d. columnId d = c \<and> g < order d) (- 1) s =
           (None, map (\<lambda>d. if columnId d = c \<and> g < order d then d\<lparr>order := order d + - 1\<rparr>
                            else d) s)"
proof -
  let ?P = "\<lambda>d. columnId d = c \<and> g < order d"
  let ?ts = "sort_key order (filter ?P s)"
  have set_ts: "set ?ts = {d \<in> set s. ?P d}"
    by auto
  have "distinct (map order (filter (\<lambda>d. columnId d = c) s))"
    using assms(2) by (simp add: column_orders_def)
  then have "distinct (map order (filter (\<lambda>d. g < order d) (filter (\<lambda>d. columnId d = c) s)))"
    by (rule distinct_map_filter)
  then have "distinct (map order (filter ?P s))"
    by (simp add: conj_commute)
  then have dist: "distinct (filter ?P s)" and inj: "inj_on order (set (filter ?P s))"
    by (simp_all add: distinct_map)
  have "distinct (map order ?ts)"
    using dist inj by (simp add: distinct_map)
  moreover have "sorted (map order ?ts)"
    by (rule sorted_sort_key)
  ultimately have "sorted_wrt (<) (map order ?ts)"
    by (simp add: strict_sorted_iff)
  then have "sorted_wrt (\<lambda>t u. order t < order u) ?ts"
    by (simp add: sorted_wrt_map)
  then have sorted: "sorted_wrt (\<lambda>t u. order u \<noteq> order t + - 1 \<and> order u \<noteq> order t) ?ts"
    by (rule sorted_wrt_mono_rel [rotated]) auto
  have others: "\<forall>t\<in>set ?ts. \<forall>d\<in>set s. d \<notin> set ?ts \<longrightarrow> columnId d = c
                  \<longrightarrow> order d \<noteq> order t + - 1"
  proof (intro ballI impI)
    fix t d
    assume t: "t \<in> set ?ts" and d: "d \<in> set s" "d \<notin> set ?ts" "columnId d = c"
    have "g < order t" using t by simp
    moreover have "\<not> g < order d" using d by simp
    moreover have "order d \<noteq> g" using assms(3) d(1,3) by blast
    ultimately show "order d \<noteq> order t + - 1" by linarith
  qed
  have "inc_each ?ts (- 1) s =
          (None, map (\<lambda>d. if d \<in> set ?ts then d\<lparr>order := order d + - 1\<rparr> else d) s)"
    using assms(1) _ _ sorted others by (rule inc_each_ok [where c = c]) auto
  moreover have "map (\<lambda>d. if d \<in> set ?ts then d\<lparr>order := order d + - 1\<rparr> else d) s =
                 map (\<lambda>d. if ?P d then d\<lparr>order := order d + - 1\<rparr> else d) s"
    by (rule map_cong) auto
  ultimately show ?thesis
    by (simp add: updateMany_def)
qed

text \<open>
  Opening a slot: the increment of the tasks from \<open>k\<close> on is never refused when no task of
  the column holds the order that follows the order of one of them.
\<close>

lemma updateMany_open_slot:
  assumes "distinct_ids s" and "distinct (column_orders s c)"
    and "\<forall>d\<in>set s. columnId d = c \<and> k \<le> order d \<longrightarrow>
           \<not> (\<exists>e\<in>set s. columnId e = c \<and> order e = order d + 1)"
  shows "updateMany (\<lambda>d. columnId d = c \<and> k \<le> order d) 1 s =
           (None, map (\<lambda>d. if columnId d = c \<and> k \<le> order d then d\<lparr>order := order d + 1\<rparr>
                            else d) s)"
proof -
  let ?P = "\<lambda>d. columnId d = c \<and> k \<le> order d"
  let ?ts = "sort_key order (filter ?P s)"
  have "distinct s"
    using assms(1) by (simp add: distinct_ids_def distinct_map)
  then have dist: "distinct ?ts" by simp
  have sorted: "sorted_wrt (\<lambda>t u. order u \<noteq> order t + 1 \<and> order u \<noteq> order t) ?ts"
    using dist
  proof (rule sorted_wrt_pairwise)
    fix t u
    assume t: "t \<in> set ?ts" and u: "u \<in> set ?ts" and "t \<noteq> u"
    then have "order t \<noteq> order u"
      using column_inj [OF assms(2), of t u] by auto
    moreover have "order u \<noteq> order t + 1"
      using assms(3) t u by auto
    ultimately show "order u \<noteq> order t + 1 \<and> order u \<noteq> order t" by simp
  qed
  have others: "\<forall>t\<in>set ?ts. \<forall>d\<in>set s. d \<notin> set ?ts \<longrightarrow> columnId d = c
                  \<longrightarrow> order d \<noteq> order t + 1"
    using assms(3) by auto
  have "inc_each ?ts 1 s =
          (None, map (\<lambda>d. if d \<in> set ?ts then d\<lparr>order := order d + 1\<rparr> else d) s)"
    using assms(1) _ _ sorted others by (rule inc_each_ok [where c = c]) auto
  moreover have "map (\<lambda>d. if d \<in> set ?ts then d\<lparr>order := order d + 1\<rparr> else d) s =
                 map (\<lambda>d. if ?P d then d\<lparr>order := order d + 1\<rparr> else d) s"
    by (rule map_cong) auto
  ultimately show ?thesis
    by (simp add: updateMany_def)
qed

lemma delete_first_filter:
  "distinct_ids s \<Longrightarrow> delete_first i s = filter (\<lambda>d. task_id d \<noteq> i) s"
proof (induction s)
  case Nil
  then show ?case by simp
next
  case (Cons d ds)
  then have "distinct_ids ds" by (simp add: distinct_ids_def)
  show ?case
  proof (cases "task_id d = i")
    case True
    then have "i \<notin> task_id ` set ds"
      using Cons.prems by (simp add: distinct_ids_def)
    then have "\<forall>x\<in>set ds. task_id x \<noteq> i"
      by (metis image_eqI)
    then have "filter (\<lambda>d. task_id d \<noteq> i) ds = ds"
      by (simp add: filter_id_conv)
    with True show ?thesis by simp
  next
    case False
    then show ?thesis using Cons.IH \<open>distinct_ids ds\<close> by simp
  qed
qed

lemma distinct_ids_filter: "distinct_ids s \<Longrightarrow> distinct_ids (filter P s)"
  by (simp add: distinct_ids_def distinct_map_filter)

lemma shifted_ids:
  "map task_id (map (\<lambda>d. if P d then d\<lparr>order := order d + n\<rparr> else d) s) = map task_id s"
  by (induction s) auto

lemma column_orders_shift:
  "column_orders (map (\<lambda>d. if columnId d = c \<and> P (order d) then d\<lparr>order := order d + n\<rparr>
                           else d) s) c =
     map (\<lambda>x. if P x then x + n else x) (column_orders s c)"
  by (induction s) (auto simp: column_orders_def)

lemma filter_column_shift_other:
  "c' \<noteq> c \<Longrightarrow>
   filter (\<lambda>d. columnId d = c')
     (map (\<lambda>d. if columnId d = c \<and> P d then d\<lparr>order := order d + n\<rparr> else d) s) =
     filter (\<lambda>d. columnId d = c') s"
  by (induction s) auto

lemma close_gap_image:
  fixes k n :: int
  assumes "1 \<le> k" and "k \<le> n"
  shows "(\<lambda>x. if k < x then x + - 1 else x) ` ({1..n} - {k}) = {1..n - 1}"
proof (intro set_eqI iffI)
  fix y assume "y \<in> (\<lambda>x. if k < x then x + - 1 else x) ` ({1..n} - {k})"
  then show "y \<in> {1..n - 1}"
    using assms by (auto split: if_splits)
next
  fix y assume y: "y \<in> {1..n - 1}"
  show "y \<in> (\<lambda>x. if k < x then x + - 1 else x) ` ({1..n} - {k})"
  proof (cases "y < k")
    case True
    then show ?thesis
      using y by (intro image_eqI [where x = y]) auto
  next
    case False
    then show ?thesis
      using y by (intro image_eqI [where x = "y + 1"]) auto
  qed
qed

section \<open>Deleting a task\<close>

text \<open>
  C5. In a collection with distinct ids, let \<open>t\<close> be the stored task that the id \<open>i\<close>
  finds, and let its column \<open>C\<close> be dense: its \<open>N\<close> tasks have exactly the orders \<open>1..N\<close>.
  Then the delete answers 200, removes \<open>t\<close>, and decrements by 1 the order of every
  remaining task of \<open>C\<close> whose order was above that of \<open>t\<close>; afterwards \<open>C\<close> has \<open>N - 1\<close>
  tasks and is dense again, so its orders are exactly \<open>1..N-1\<close>; the tasks of every other
  column are as they were. (With \<open>t\<close> gone, the unique index refuses none of the
  decrements: they are written in ascending order, each onto the order that the one
  before it has left.)
\<close>

theorem deleteTask_compacts:
  assumes "valid_object_id i" and "findById s i = Inr (Some t)" and "distinct_ids s"
    and "columnId t = C" and "dense s C"
  shows "delete_task s i =
           (Response 200 (SuccessMessage ''Task deleted successfully''),
            map (\<lambda>d. if columnId d = C \<and> order t < order d then d\<lparr>order := order d - 1\<rparr> else d)
              (filter (\<lambda>d. task_id d \<noteq> task_id t) s)) \<and>
         dense (snd (delete_task s i)) C \<and>
         length (column_orders (snd (delete_task s i)) C) = length (column_orders s C) - 1 \<and>
         (\<forall>c. c \<noteq> C \<longrightarrow> filter (\<lambda>d. columnId d = c) (snd (delete_task s i)) =
                            filter (\<lambda>d. columnId d = c) s)"
proof -
  let ?xs = "column_orders s C"
  let ?k = "order t"
  let ?g = "\<lambda>x. if ?k < x then x + - 1 else x"
  let ?s1 = "filter (\<lambda>d. task_id d \<noteq> task_id t) s"
  let ?s2 = "map (\<lambda>d. if columnId d = C \<and> ?k < order d then d\<lparr>order := order d + - 1\<rparr> else d) ?s1"
  let ?s' = "snd (delete_task s i)"
  have t: "task_id t = map lower_hex i" "t \<in> set s"
    using assms(2) by (simp_all add: findById_Some)
  have dist: "distinct ?xs" and range: "set ?xs = {1 .. int (length ?xs)}"
    using assms(5) by (simp_all add: dense_def)
  have removed: "findByIdAndDelete i s = Inr ?s1"
    using assms(1,3) t(1) by (simp add: findByIdAndDelete_def castObjectId_valid delete_first_filter)
  have ids1: "distinct_ids ?s1"
    using assms(3) by (rule distinct_ids_filter)
  have same: "task_id d \<noteq> task_id t \<longleftrightarrow> order d \<noteq> ?k" if "d \<in> set s" "columnId d = C" for d
  proof
    assume "task_id d \<noteq> task_id t"
    then have "d \<noteq> t" by auto
    then show "order d \<noteq> ?k"
      using column_inj [OF dist that(1) t(2) that(2) assms(4)] by auto
  next
    assume "order d \<noteq> ?k"
    then show "task_id d \<noteq> task_id t"
      using distinct_ids_eq [OF assms(3) that(1) t(2)] by auto
  qed
  have "filter (\<lambda>d. columnId d = C) ?s1 =
        filter (\<lambda>d. order d \<noteq> ?k) (filter (\<lambda>d. columnId d = C) s)"
    using same by (auto intro!: filter_cong simp: conj_commute)
  then have rest: "column_orders ?s1 C = filter (\<lambda>x. x \<noteq> ?k) ?xs"
    by (simp add: column_orders_def filter_map comp_def)
  have dist1: "distinct (column_orders ?s1 C)"
    using dist by (simp add: rest)
  have gap: "\<forall>d\<in>set ?s1. \<not> (columnId d = C \<and> order d = ?k)"
    using same by auto
  have shifted: "updateMany (\<lambda>d. columnId d = C \<and> ?k < order d) (- 1) ?s1 = (None, ?s2)"
    using ids1 dist1 gap by (rule updateMany_close_gap)
  have result: "delete_task s i =
                  (Response 200 (SuccessMessage ''Task deleted successfully''), ?s2)"
    using assms(1,2,4) removed shifted by (simp add: delete_task_def)
  then have s': "?s' = ?s2" by simp
  have k_in: "?k \<in> set ?xs"
    using t(2) assms(4) by (auto simp: column_orders_def)
  have orders': "column_orders ?s' C = map ?g (filter (\<lambda>x. x \<noteq> ?k) ?xs)"
    unfolding s' rest [symmetric]
    by (rule column_orders_shift [where P = "\<lambda>x. ?k < x"])
  have len: "length (filter (\<lambda>x. x \<noteq> ?k) ?xs) = length ?xs - 1"
  proof -
    have "filter (\<lambda>x. x \<noteq> ?k) ?xs = remove1 ?k ?xs"
      using dist by (simp add: distinct_remove1_removeAll removeAll_filter_not_eq) metis
    then show ?thesis
      using k_in by (simp add: length_remove1)
  qed
  have bounds: "1 \<le> ?k" "?k \<le> int (length ?xs)"
    using k_in range by auto
  have "set (column_orders ?s' C) = ?g ` ({1 .. int (length ?xs)} - {?k})"
    using range by (auto simp: orders')
  also have "\<dots> = {1 .. int (length ?xs) - 1}"
    using bounds by (rule close_gap_image)
  finally have set': "set (column_orders ?s' C) = {1 .. int (length ?xs) - 1}" .
  have "inj_on ?g (set (filter (\<lambda>x. x \<noteq> ?k) ?xs))"
    by (auto simp: inj_on_def split: if_splits)
  then have dist': "distinct (column_orders ?s' C)"
    using dist by (simp add: orders' distinct_map)
  have len': "length (column_orders ?s' C) = length ?xs - 1"
    by (simp add: orders' len)
  obtain m where "length ?xs = Suc m"
    using k_in by (cases ?xs) auto
  then have "int (length ?xs - 1) = int (length ?xs) - 1"
    by simp
  then have dense': "dense ?s' C"
    using set' dist' len' by (simp add: dense_def)
  have other: "filter (\<lambda>d. columnId d = c) ?s' = filter (\<lambda>d. columnId d = c) s"
    if "c \<noteq> C" for c
  proof -
    have "filter (\<lambda>d. columnId d = c) ?s1 = filter (\<lambda>d. columnId d = c) s"
      using distinct_ids_eq [OF assms(3) _ t(2)] assms(4) that
      by (auto intro!: filter_cong)
    then show ?thesis
      unfolding s' using that by (simp add: filter_column_shift_other)
  qed
  have "?s2 = map (\<lambda>d. if columnId d = C \<and> order t < order d then d\<lparr>order := order d - 1\<rparr> else d) ?s1"
    by simp
  then show ?thesis
    using result dense' len' other by simp
qed

theorem deleteTask_compacts_witness:
  "dense todo_board ''todo'' \<and>
   delete_task todo_board id_B =
     (Response 200 (SuccessMessage ''Task deleted successfully''),
      [mk_task id_A ''Task A'' ''todo'' 1, mk_task id_C ''Task C'' ''todo'' 2]) \<and>
   dense (snd (delete_task todo_board id_B)) ''todo''"
proof -
  have "valid_object_id id_B"
    by (simp add: valid_object_id_def id_B_def)
  moreover have "findById todo_board id_B = Inr (Some task_B)"
    by (simp add: findById_def castObjectId_def valid_object_id_def lower_hex_def sample_defs)
  moreover have "distinct_ids todo_board"
    by (simp add: distinct_ids_def sample_defs)
  moreover have "columnId task_B = ''todo''"
    by (simp add: sample_defs)
  moreover have "dense todo_board ''todo''"
    by (auto simp: dense_def column_orders_def sample_defs)
  ultimately show ?thesis
    using deleteTask_compacts [of id_B todo_board task_B "''todo''"]
    by (auto simp: sample_defs dense_def column_orders_def)
qed

section \<open>Uniqueness of the orders of a column\<close>

text \<open>
  C1 (P1, I1). Start from a collection in which no two tasks of a column share an order.
  After every sequence of operations of the engine, each an insert, a delete, a move, a
  bulk reorder or a next-order computation, run one after the other, no two tasks of a
  column share an order. The operations are arbitrary: whether one of them ends with its
  result or with an error, the collection it leaves has the property, because every single
  write of a document is checked against the unique index on \<^verbatim>\<open>(columnId, order)\<close>.
  (In the witness a move goes through, a bulk reorder that would give A the order of B is
  refused, an insert with the order 0 is appended, and a delete closes the gap.)
\<close>

theorem uniqueness_preserved:
  assumes "unique_orders s"
  shows "unique_orders (run s ops) \<and> (\<forall>C. distinct (column_orders (run s ops) C))"
proof -
  have "unique_orders (run s ops)"
    using assms
  proof (induction ops arbitrary: s)
    case Nil
    then show ?case by simp
  next
    case (Cons op ops)
    then show ?case by (simp add: execute_unique)
  qed
  then show ?thesis
    by (simp add: unique_orders_column)
qed

theorem uniqueness_preserved_witness:
  "unique_orders board \<and>
   run board
     [MoveTask id_C ''in-progress'' 2,
      BulkReorder ''todo'' [\<lparr>entry_id = id_A, entry_order = 2\<rparr>],
      InsertTask id_N ''New task'' [] ''todo'' (JNumber 0),
      DeleteTask id_A] =
     [mk_task id_B ''Task B'' ''todo'' 1, mk_task id_C ''Task C'' ''in-progress'' 2,
      task_D, mk_task id_E ''Task E'' ''in-progress'' 3, mk_task id_N ''New task'' ''todo'' 2] \<and>
   unique_orders
     [mk_task id_B ''Task B'' ''todo'' 1, mk_task id_C ''Task C'' ''in-progress'' 2,
      task_D, mk_task id_E ''Task E'' ''in-progress'' 3, mk_task id_N ''New task'' ''todo'' 2]"
proof -
  let ?ops = "[MoveTask id_C ''in-progress'' 2,
      BulkReorder ''todo'' [\<lparr>entry_id = id_A, entry_order = 2\<rparr>],
      InsertTask id_N ''New task'' [] ''todo'' (JNumber 0),
      DeleteTask id_A]"
  have start: "unique_orders board"
    by (simp add: unique_orders_def sample_defs)
  have s1: "execute board (MoveTask id_C ''in-progress'' 2) =
              [task_A, task_B, mk_task id_C ''Task C'' ''in-progress'' 2, task_D,
               mk_task id_E ''Task E'' ''in-progress'' 3]"
    by (simp add: eval_defs sample_defs)
  have s2: "execute [task_A, task_B, mk_task id_C ''Task C'' ''in-progress'' 2, task_D,
               mk_task id_E ''Task E'' ''in-progress'' 3]
              (BulkReorder ''todo'' [\<lparr>entry_id = id_A, entry_order = 2\<rparr>]) =
              [task_A, task_B, mk_task id_C ''Task C'' ''in-progress'' 2, task_D,
               mk_task id_E ''Task E'' ''in-progress'' 3]"
    by (simp add: eval_defs sample_defs)
  have s3: "execute [task_A, task_B, mk_task id_C ''Task C'' ''in-progress'' 2, task_D,
               mk_task id_E ''Task E'' ''in-progress'' 3]
              (InsertTask id_N ''New task'' [] ''todo'' (JNumber 0)) =
              [task_A, task_B, mk_task id_C ''Task C'' ''in-progress'' 2, task_D,
               mk_task id_E ''Task E'' ''in-progress'' 3, mk_task id_N ''New task'' ''todo'' 3]"
    by (simp add: eval_defs sample_defs to_double_def bit_length.simps)
  have s4: "execute [task_A, task_B, mk_task id_C ''Task C'' ''in-progress'' 2, task_D,
               mk_task id_E ''Task E'' ''in-progress'' 3, mk_task id_N ''New task'' ''todo'' 3]
              (DeleteTask id_A) =
              [mk_task id_B ''Task B'' ''todo'' 1, mk_task id_C ''Task C'' ''in-progress'' 2,
               task_D, mk_task id_E ''Task E'' ''in-progress'' 3,
               mk_task id_N ''New task'' ''todo'' 2]"
    by (simp add: eval_defs sample_defs)
  have "run board ?ops =
     [mk_task id_B ''Task B'' ''todo'' 1, mk_task id_C ''Task C'' ''in-progress'' 2,
      task_D, mk_task id_E ''Task E'' ''in-progress'' 3, mk_task id_N ''New task'' ''todo'' 2]"
    by (simp only: run.simps s1 s2 s3 s4)
  then show ?thesis
    using uniqueness_preserved [OF start, of ?ops] start by simp
qed

section \<open>Moves and bulk reorders that the unique index refuses\<close>

text \<open>
  C2. The move of A (todo, order 1) to the column in-progress at the order 1 on the board
  A, B, C (todo 1, 2, 3), D, E (in-progress 1, 2). The source takes the steps of the
  claim, but in this order: the decrement of the tasks of todo above A is written while A
  still holds its key, and its first write, B from 2 to 1, is refused by the unique
  index. The move throws, the handler answers 500, and no task is changed: B and C are
  not decremented, D and E are not incremented, A is not moved.
\<close>

theorem moveTask_across_columns_refused:
  "moveTaskToColumn board id_A ''in-progress'' 1 = (Inl (move_error duplicate_key), board) \<and>
   put_task board id_A ''in-progress'' 1 =
     (Response 500 (ErrorMessage ''Failed to update task''), board)"
  by (simp add: eval_defs sample_defs)

text \<open>
  C3. The scenario of the specification: todo holds A, B, C with the orders 1, 2, 3, and B
  is moved to the order 3. The decrement of the tasks in \<open>(2, 3]\<close> is written while B still
  holds the order 2: the write of C from 3 to 2 is refused, the move throws, the handler
  answers 500 and the column is still A=1, B=2, C=3. The move of C to the order 1 fails in
  the same way, at the increment of A from 1 to 2. The move of B to its own order 2 goes
  through and changes nothing.
\<close>

theorem moveTask_within_column_refused:
  "moveTaskToColumn todo_board id_B ''todo'' 3 = (Inl (move_error duplicate_key), todo_board) \<and>
   put_task todo_board id_B ''todo'' 3 =
     (Response 500 (ErrorMessage ''Failed to update task''), todo_board) \<and>
   moveTaskToColumn todo_board id_C ''todo'' 1 = (Inl (move_error duplicate_key), todo_board) \<and>
   moveTaskToColumn todo_board id_B ''todo'' 2 = (Inr task_B, todo_board)"
  by (simp add: eval_defs sample_defs)

text \<open>
  C6. On the board, every column dense, C (todo, order 3) is moved to the column
  in-progress at the order 2: the move goes through, E is incremented to 3. The move of C
  back to todo at the order 3 is refused: the decrement of E from 3 to 2 is written while
  C still holds the order 2 of in-progress. The collection after the two moves is not the
  board: C is still in in-progress at 2, and E has the order 3.
\<close>

theorem move_across_and_back_refused:
  "dense board ''todo'' \<and> dense board ''in-progress'' \<and> unique_orders board \<and>
   moveTaskToColumn board id_C ''in-progress'' 2 =
     (Inr (mk_task id_C ''Task C'' ''in-progress'' 2),
      [task_A, task_B, mk_task id_C ''Task C'' ''in-progress'' 2, task_D,
       mk_task id_E ''Task E'' ''in-progress'' 3]) \<and>
   moveTaskToColumn
     [task_A, task_B, mk_task id_C ''Task C'' ''in-progress'' 2, task_D,
      mk_task id_E ''Task E'' ''in-progress'' 3] id_C ''todo'' 3 =
     (Inl (move_error duplicate_key),
      [task_A, task_B, mk_task id_C ''Task C'' ''in-progress'' 2, task_D,
       mk_task id_E ''Task E'' ''in-progress'' 3]) \<and>
   [task_A, task_B, mk_task id_C ''Task C'' ''in-progress'' 2, task_D,
    mk_task id_E ''Task E'' ''in-progress'' 3] \<noteq> board"
proof -
  have "dense board ''todo''" "dense board ''in-progress''"
    by (auto simp: dense_def column_orders_def sample_defs)
  moreover have "unique_orders board"
    by (simp add: unique_orders_def sample_defs)
  moreover have "moveTaskToColumn board id_C ''in-progress'' 2 =
     (Inr (mk_task id_C ''Task C'' ''in-progress'' 2),
      [task_A, task_B, mk_task id_C ''Task C'' ''in-progress'' 2, task_D,
       mk_task id_E ''Task E'' ''in-progress'' 3])"
    by (simp add: eval_defs sample_defs)
  moreover have "moveTaskToColumn
     [task_A, task_B, mk_task id_C ''Task C'' ''in-progress'' 2, task_D,
      mk_task id_E ''Task E'' ''in-progress'' 3] id_C ''todo'' 3 =
     (Inl (move_error duplicate_key),
      [task_A, task_B, mk_task id_C ''Task C'' ''in-progress'' 2, task_D,
       mk_task id_E ''Task E'' ''in-progress'' 3])"
    by (simp add: eval_defs sample_defs)
  moreover have "[task_A, task_B, mk_task id_C ''Task C'' ''in-progress'' 2, task_D,
    mk_task id_E ''Task E'' ''in-progress'' 3] \<noteq> board"
    by (simp add: sample_defs)
  ultimately show ?thesis by simp
qed

text \<open>
  C8. The list C to 1, A to 2, B to 3 is a valid permutation for the column todo of A, B,
  C with the orders 1, 2, 3. Its first \<^verbatim>\<open>updateOne\<close>, C to the order 1, is refused by the
  unique index, because A still holds the order 1: \<open>reorderTasks\<close> throws, the handler
  answers 500, and no order is changed.
\<close>

theorem bulkReorder_refused:
  "valid_permutation todo_board ''todo''
     [\<lparr>entry_id = id_C, entry_order = 1\<rparr>, \<lparr>entry_id = id_A, entry_order = 2\<rparr>,
      \<lparr>entry_id = id_B, entry_order = 3\<rparr>] \<and>
   reorderTasks todo_board ''todo''
     [\<lparr>entry_id = id_C, entry_order = 1\<rparr>, \<lparr>entry_id = id_A, entry_order = 2\<rparr>,
      \<lparr>entry_id = id_B, entry_order = 3\<rparr>] =
     (Some (reorder_error duplicate_key), todo_board) \<and>
   post_reorder todo_board ''todo''
     [\<lparr>entry_id = id_C, entry_order = 1\<rparr>, \<lparr>entry_id = id_A, entry_order = 2\<rparr>,
      \<lparr>entry_id = id_B, entry_order = 3\<rparr>] =
     (Response 500 (ErrorMessage ''Failed to reorder tasks''), todo_board)"
proof -
  have "valid_permutation todo_board ''todo''
     [\<lparr>entry_id = id_C, entry_order = 1\<rparr>, \<lparr>entry_id = id_A, entry_order = 2\<rparr>,
      \<lparr>entry_id = id_B, entry_order = 3\<rparr>]"
    by (auto simp: valid_permutation_def sample_defs)
  moreover have "reorderTasks todo_board ''todo''
     [\<lparr>entry_id = id_C, entry_order = 1\<rparr>, \<lparr>entry_id = id_A, entry_order = 2\<rparr>,
      \<lparr>entry_id = id_B, entry_order = 3\<rparr>] =
     (Some (reorder_error duplicate_key), todo_board)"
    by (simp add: eval_defs sample_defs)
  moreover have "post_reorder todo_board ''todo''
     [\<lparr>entry_id = id_C, entry_order = 1\<rparr>, \<lparr>entry_id = id_A, entry_order = 2\<rparr>,
      \<lparr>entry_id = id_B, entry_order = 3\<rparr>] =
     (Response 500 (ErrorMessage ''Failed to reorder tasks''), todo_board)"
    by (simp add: eval_defs sample_defs)
  ultimately show ?thesis
    by simp
qed

section \<open>When the unique index refuses a shift\<close>

lemma inc_each_refused:
  assumes "distinct_ids s" and "t \<in> set s"
    and "\<exists>x\<in>set s. x \<noteq> t \<and> index_key x = index_key (t\<lparr>order := order t + n\<rparr>)"
  shows "inc_each (t # ts) n s = (Some duplicate_key, s)"
  using assms(3) by (simp add: updateOne_by_id [OF assms(1,2)])

lemma sort_key_first:
  assumes "xs \<noteq> []"
  obtains t ts where "sort_key f xs = t # ts" and "t \<in> set xs" and "\<forall>x\<in>set xs. f t \<le> f x"
proof -
  have "length (sort_key f xs) = length xs" by simp
  then obtain t ts where ts: "sort_key f xs = t # ts"
    using assms by (cases "sort_key f xs") auto
  have "set (t # ts) = set xs"
    using ts set_sort [of f xs] by simp
  moreover have "sorted (map f (t # ts))"
    using ts sorted_sort_key [of f xs] by simp
  ultimately have "t \<in> set xs" and "\<forall>x\<in>set xs. f t \<le> f x"
    by auto
  with ts show ?thesis by (rule that)
qed

text \<open>
  The first document that an \<^verbatim>\<open>updateMany\<close> visits is the matching one with the least
  order. When another task of the column holds the order that this document is to be
  given, the statement ends there with the error and has written nothing.
\<close>

lemma updateMany_refused:
  assumes "distinct_ids s" and "distinct (column_orders s c)"
    and "\<And>d. P d \<Longrightarrow> columnId d = c"
    and "d1 \<in> set s" and "P d1" and "\<forall>d\<in>set s. P d \<longrightarrow> order d1 \<le> order d"
    and "\<exists>x\<in>set s. x \<noteq> d1 \<and> columnId x = c \<and> order x = order d1 + n"
  shows "updateMany P n s = (Some duplicate_key, s)"
proof -
  have "filter P s \<noteq> []"
    using assms(4,5) by (auto simp: filter_empty_conv)
  then obtain t ts where ts: "sort_key order (filter P s) = t # ts"
    and t: "t \<in> set (filter P s)" and least: "\<forall>x\<in>set (filter P s). order t \<le> order x"
    by (rule sort_key_first)
  have "order t \<le> order d1" using least assms(4,5) by simp
  moreover have "order d1 \<le> order t" using assms(6) t by simp
  ultimately have "order t = order d1" by simp
  moreover have "columnId t = c" "columnId d1 = c" using assms(3,5) t by simp_all
  ultimately have "t = d1"
    using column_inj [OF assms(2), of t d1] t assms(4) by simp
  have "\<exists>x\<in>set s. x \<noteq> d1 \<and> index_key x = index_key (d1\<lparr>order := order d1 + n\<rparr>)"
    using assms(7) \<open>columnId d1 = c\<close> by (auto simp: index_key_def)
  then have "inc_each (d1 # ts) n s = (Some duplicate_key, s)"
    by (rule inc_each_refused [OF assms(1,4)])
  then show ?thesis
    using ts \<open>t = d1\<close> by (simp add: updateMany_def)
qed

lemma dense_holds:
  assumes "dense s C" and "1 \<le> k" and "k \<le> int (length (column_orders s C))"
  obtains d where "d \<in> set s" and "columnId d = C" and "order d = k"
proof -
  have "k \<in> set (column_orders s C)"
    using assms by (simp add: dense_def)
  then show ?thesis
    using that by (auto simp: column_orders_def)
qed

lemma dense_bounds:
  assumes "dense s C" and "d \<in> set s" and "columnId d = C"
  shows "1 \<le> order d \<and> order d \<le> int (length (column_orders s C))"
proof -
  have "order d \<in> set (column_orders s C)"
    using assms(2,3) by (auto simp: column_orders_def)
  then show ?thesis
    using assms(1) by (simp add: dense_def)
qed

text \<open>
  A move within a dense column. In a collection with distinct ids, let the column \<open>C\<close> of
  the stored task \<open>t\<close> be dense with \<open>N\<close> tasks, and let \<open>n\<close> be another order of \<open>1..N\<close>
  than that of \<open>t\<close>. Then the move of \<open>t\<close> to \<open>n\<close> is refused: the first write of the shift
  lands on an order that a task of the column still holds, \<open>moveTaskToColumn\<close> throws the
  wrapped duplicate key error, and the collection is as it was.
\<close>

theorem moveTask_within_dense_column_refused:
  assumes "findById s i = Inr (Some t)" and "distinct_ids s" and "columnId t = C"
    and "dense s C" and "1 \<le> n" and "n \<le> int (length (column_orders s C))"
    and "n \<noteq> order t"
  shows "moveTaskToColumn s i C n = (Inl (move_error duplicate_key), s)"
proof -
  let ?k = "order t"
  have t: "t \<in> set s"
    using assms(1) by (simp add: findById_Some)
  have col: "distinct (column_orders s C)"
    using assms(4) by (simp add: dense_def)
  have k: "1 \<le> ?k" "?k \<le> int (length (column_orders s C))"
    using dense_bounds [OF assms(4) t assms(3)] by simp_all
  have "move_shifts t C n s = (Some duplicate_key, s)"
  proof (cases "n < ?k")
    case True
    obtain d1 where d1: "d1 \<in> set s" "columnId d1 = C" "order d1 = n"
      using assms(4,5,6) by (rule dense_holds)
    have "1 \<le> n + 1" "n + 1 \<le> int (length (column_orders s C))"
      using True assms(5) k(2) by simp_all
    with assms(4) obtain x where x: "x \<in> set s" "columnId x = C" "order x = n + 1"
      by (rule dense_holds)
    have "x \<noteq> d1" using x(3) d1(3) by auto
    have "updateMany (\<lambda>d. columnId d = C \<and> n \<le> order d \<and> order d < ?k) 1 s =
            (Some duplicate_key, s)"
      using assms(2) col
    proof (rule updateMany_refused)
      show "d1 \<in> set s" by (rule d1(1))
      show "columnId d1 = C \<and> n \<le> order d1 \<and> order d1 < ?k"
        using d1 True by simp
      show "\<forall>d\<in>set s. columnId d = C \<and> n \<le> order d \<and> order d < ?k \<longrightarrow> order d1 \<le> order d"
        using d1(3) by simp
      show "\<exists>x\<in>set s. x \<noteq> d1 \<and> columnId x = C \<and> order x = order d1 + 1"
        using x \<open>x \<noteq> d1\<close> d1(3) by auto
    qed simp
    then show ?thesis
      using True assms(3) by (simp add: move_shifts_def Let_def)
  next
    case False
    then have later: "?k < n" using assms(7) by simp
    have "1 \<le> ?k + 1" "?k + 1 \<le> int (length (column_orders s C))"
      using later k(1) assms(6) by simp_all
    with assms(4) obtain d1 where d1: "d1 \<in> set s" "columnId d1 = C" "order d1 = ?k + 1"
      by (rule dense_holds)
    have "t \<noteq> d1" using d1(3) by auto
    have "updateMany (\<lambda>d. columnId d = C \<and> ?k < order d \<and> order d \<le> n) (- 1) s =
            (Some duplicate_key, s)"
      using assms(2) col
    proof (rule updateMany_refused)
      show "d1 \<in> set s" by (rule d1(1))
      show "columnId d1 = C \<and> ?k < order d1 \<and> order d1 \<le> n"
        using d1 later by simp
      show "\<forall>d\<in>set s. columnId d = C \<and> ?k < order d \<and> order d \<le> n \<longrightarrow> order d1 \<le> order d"
        using d1(3) by simp
      show "\<exists>x\<in>set s. x \<noteq> d1 \<and> columnId x = C \<and> order x = order d1 + - 1"
        using t \<open>t \<noteq> d1\<close> assms(3) d1(3) by auto
    qed simp
    then show ?thesis
      using False later assms(3) by (simp add: move_shifts_def Let_def)
  qed
  then show ?thesis
    using assms(1) by (simp add: moveTaskToColumn_def)
qed

theorem moveTask_within_dense_column_refused_witness:
  "moveTaskToColumn todo_board id_A ''todo'' 3 = (Inl (move_error duplicate_key), todo_board) \<and>
   moveTaskToColumn todo_board id_C ''todo'' 2 = (Inl (move_error duplicate_key), todo_board)"
proof -
  have found: "findById todo_board id_A = Inr (Some task_A)"
    "findById todo_board id_C = Inr (Some task_C)"
    by (simp_all add: findById_def castObjectId_def valid_object_id_def lower_hex_def sample_defs)
  have ids: "distinct_ids todo_board"
    by (simp add: distinct_ids_def sample_defs)
  have column: "columnId task_A = ''todo''" "columnId task_C = ''todo''"
    by (simp_all add: sample_defs)
  have full: "dense todo_board ''todo''"
    by (auto simp: dense_def column_orders_def sample_defs)
  have len: "int (length (column_orders todo_board ''todo'')) = 3"
    by (simp add: column_orders_def sample_defs)
  have "moveTaskToColumn todo_board id_A ''todo'' 3 =
          (Inl (move_error duplicate_key), todo_board)"
    using moveTask_within_dense_column_refused [OF found(1) ids column(1) full, of 3] len
    by (simp add: sample_defs)
  moreover have "moveTaskToColumn todo_board id_C ''todo'' 2 =
          (Inl (move_error duplicate_key), todo_board)"
    using moveTask_within_dense_column_refused [OF found(2) ids column(2) full, of 2] len
    by (simp add: sample_defs)
  ultimately show ?thesis by simp
qed

text \<open>
  A move to another column. In a collection with distinct ids, let the orders of the
  column of the stored task \<open>t\<close> be distinct, let the order of \<open>t\<close> be a safe integer, and
  let a task of that column hold the order that follows the order of \<open>t\<close>. Then the move
  of \<open>t\<close> to another column is refused at the first decrement of the source column, which
  lands on the order that \<open>t\<close> still holds: \<open>moveTaskToColumn\<close> throws the wrapped
  duplicate key error, and the collection is as it was.
\<close>

theorem moveTask_across_columns_refused_behind:
  assumes "findById s i = Inr (Some t)" and "distinct_ids s"
    and "distinct (column_orders s (columnId t))" and "columnId t \<noteq> c"
    and "\<exists>d\<in>set s. columnId d = columnId t \<and> order d = order t + 1"
    and "\<bar>order t\<bar> \<le> MAX_SAFE_INTEGER"
  shows "moveTaskToColumn s i c n = (Inl (move_error duplicate_key), s)"
proof -
  have t: "t \<in> set s"
    using assms(1) by (simp add: findById_Some)
  obtain d1 where d1: "d1 \<in> set s" "columnId d1 = columnId t" "order d1 = order t + 1"
    using assms(5) by auto
  have "t \<noteq> d1" using d1(3) by auto
  have "updateMany (\<lambda>d. columnId d = columnId t \<and> order t < order d) (- 1) s =
          (Some duplicate_key, s)"
    using assms(2,3)
  proof (rule updateMany_refused)
    show "d1 \<in> set s" by (rule d1(1))
    show "columnId d1 = columnId t \<and> order t < order d1"
      using d1 by simp
    show "\<forall>d\<in>set s. columnId d = columnId t \<and> order t < order d \<longrightarrow> order d1 \<le> order d"
      using d1(3) by simp
    show "\<exists>x\<in>set s. x \<noteq> d1 \<and> columnId x = columnId t \<and> order x = order d1 + - 1"
      using t \<open>t \<noteq> d1\<close> d1(3) by auto
  qed simp
  then have "move_shifts t c n s = (Some duplicate_key, s)"
    using assms(4) by (simp add: move_shifts_def Let_def)
  then show ?thesis
    using assms(1) by (simp add: moveTaskToColumn_def)
qed

theorem moveTask_across_columns_refused_behind_witness:
  "moveTaskToColumn board id_B ''in-progress'' 7 = (Inl (move_error duplicate_key), board)"
proof -
  have "findById board id_B = Inr (Some task_B)"
    by (simp add: findById_def castObjectId_def valid_object_id_def lower_hex_def sample_defs)
  moreover have "distinct_ids board"
    by (simp add: distinct_ids_def sample_defs)
  moreover have "distinct (column_orders board (columnId task_B))"
    by (simp add: column_orders_def sample_defs)
  moreover have "columnId task_B \<noteq> ''in-progress''"
    by (simp add: sample_defs)
  moreover have "\<exists>d\<in>set board. columnId d = columnId task_B \<and> order d = order task_B + 1"
    by (simp add: sample_defs)
  moreover have "\<bar>order task_B\<bar> \<le> MAX_SAFE_INTEGER"
    by (simp add: MAX_SAFE_INTEGER_def sample_defs)
  ultimately show ?thesis
    by (rule moveTask_across_columns_refused_behind)
qed

text \<open>
  A bulk reorder. In a collection with distinct ids, let the first entry of the list name
  a task of the column, by a well-formed id, and give it an order that another task of the
  column holds. Then the first \<^verbatim>\<open>updateOne\<close> is refused: \<open>reorderTasks\<close> throws the
  wrapped duplicate key error, no entry is applied, and the collection is as it was. In a
  dense column this is every list that is a permutation of \<open>1..N\<close> and whose first entry
  changes the order of its task.
\<close>

theorem bulkReorder_first_entry_refused:
  assumes "valid_object_id (entry_id u)" and "distinct_ids s" and "d \<in> set s"
    and "task_id d = map lower_hex (entry_id u)" and "columnId d = c"
    and "\<exists>x\<in>set s. x \<noteq> d \<and> columnId x = c \<and> order x = entry_order u"
  shows "reorderTasks s c (u # us) = (Some (reorder_error duplicate_key), s)"
proof -
  let ?P = "\<lambda>x. task_id x = map lower_hex (entry_id u) \<and> columnId x = c"
  let ?d' = "d\<lparr>order := entry_order u\<rparr>"
  have "find (\<lambda>x. task_id x = task_id d) s = Some d"
    using assms(2,3) by (rule find_id_member)
  then have "find ?P s = Some d"
    using assms(4,5) by (auto simp: find_Some_iff)
  moreover have "index_key ?d' \<in> set (map index_key (remove1 d s))"
  proof -
    obtain x where x: "x \<in> set s" "x \<noteq> d" "columnId x = c" "order x = entry_order u"
      using assms(6) by auto
    then have "x \<in> set (remove1 d s)"
      using remove1_by_id [OF assms(2,3)] by simp
    moreover have "index_key x = index_key ?d'"
      using x assms(5) by (simp add: index_key_def)
    ultimately show ?thesis by (metis image_eqI set_map)
  qed
  ultimately have "updateOne ?P (\<lambda>d. d\<lparr>order := entry_order u\<rparr>) s = Inl duplicate_key"
    by (simp add: updateOne_def)
  then show ?thesis
    using castObjectId_valid [OF assms(1)] by simp
qed

theorem bulkReorder_first_entry_refused_witness:
  "reorderTasks board ''in-progress''
     [\<lparr>entry_id = id_E, entry_order = 1\<rparr>, \<lparr>entry_id = id_D, entry_order = 2\<rparr>] =
     (Some (reorder_error duplicate_key), board)"
proof -
  have "valid_object_id (entry_id \<lparr>entry_id = id_E, entry_order = 1\<rparr>)"
    by (simp add: valid_object_id_def sample_defs)
  moreover have "distinct_ids board"
    by (simp add: distinct_ids_def sample_defs)
  moreover have "task_E \<in> set board"
    by (simp add: board_def)
  moreover have "task_id task_E = map lower_hex (entry_id \<lparr>entry_id = id_E, entry_order = 1\<rparr>)"
    by (simp add: lower_hex_def sample_defs)
  moreover have "columnId task_E = ''in-progress''"
    by (simp add: sample_defs)
  moreover have "\<exists>x\<in>set board. x \<noteq> task_E \<and> columnId x = ''in-progress'' \<and>
                   order x = entry_order \<lparr>entry_id = id_E, entry_order = 1\<rparr>"
    by (simp add: sample_defs)
  ultimately show ?thesis
    by (rule bulkReorder_first_entry_refused)
qed

section \<open>A move of a task to its own place\<close>

lemma replace_first_same: "find P s = Some d \<Longrightarrow> replace_first P d s = s"
  by (induction s) (auto split: if_splits)

lemma remove1_keys:
  "distinct (map g s) \<Longrightarrow> d \<in> set s \<Longrightarrow> g d \<notin> set (map g (remove1 d s))"
proof (induction s)
  case Nil
  then show ?case by simp
next
  case (Cons x xs)
  show ?case
  proof (cases "x = d")
    case True
    then show ?thesis using Cons.prems(1) by simp
  next
    case False
    then have "d \<in> set xs" using Cons.prems(2) by simp
    then have "g d \<in> g ` set xs" by (rule imageI)
    moreover have "g x \<notin> g ` set xs" using Cons.prems(1) by simp
    ultimately have "g d \<noteq> g x" by metis
    moreover have "g d \<notin> set (map g (remove1 d xs))"
      using Cons.IH Cons.prems(1) \<open>d \<in> set xs\<close> by simp
    ultimately show ?thesis using False by simp
  qed
qed

text \<open>
  P3. In a collection in which no two tasks of a column share an order, let \<open>t\<close> be the
  stored task that the id \<open>i\<close> finds, a task that passes the validators of the schema. The
  move of \<open>t\<close> to its own column and its own order shifts nothing, returns \<open>t\<close>, and leaves
  the collection as it was.
\<close>

theorem moveTask_to_own_order:
  assumes "unique_orders s" and "findById s i = Inr (Some t)" and "validate t = []"
  shows "moveTaskToColumn s i (columnId t) (order t) = (Inr t, s)"
proof -
  let ?P = "\<lambda>x. task_id x = task_id t"
  have t: "t \<in> set s" "valid_object_id i" "task_id t = map lower_hex i"
    using assms(2) by (simp_all add: findById_Some)
  have "find (\<lambda>d. task_id d = map lower_hex i) s = Some t"
    using assms(2) t(2) by (simp add: findById_def castObjectId_valid)
  then have found: "find ?P s = Some t"
    by (simp add: t(3))
  have same: "t\<lparr>columnId := columnId t, order := order t\<rparr> = t"
    by simp
  have "index_key t \<notin> set (map index_key (remove1 t s))"
    using assms(1) t(1) unfolding unique_orders_key by (rule remove1_keys)
  then have "updateOne ?P (\<lambda>x. x\<lparr>columnId := columnId t, order := order t\<rparr>) s =
               Inr (replace_first ?P t s)"
    using found by (simp add: updateOne_def)
  then have "save t s = Inr s"
    using assms(3) found by (simp add: save_def replace_first_same)
  moreover have "move_shifts t (columnId t) (order t) s = (None, s)"
    by (simp add: move_shifts_def)
  ultimately show ?thesis
    using assms(2) by (simp add: moveTaskToColumn_def)
qed

theorem moveTask_to_own_order_witness:
  "moveTaskToColumn board id_D ''in-progress'' 1 = (Inr task_D, board)"
proof -
  have "unique_orders board"
    by (simp add: unique_orders_def sample_defs)
  moreover have "findById board id_D = Inr (Some task_D)"
    by (simp add: findById_def castObjectId_def valid_object_id_def lower_hex_def sample_defs)
  moreover have "validate task_D = []"
    by (simp add: validate_def validate_title_def validate_columnId_def validate_order_def
        validColumns_def sample_defs)
  ultimately have "moveTaskToColumn board id_D (columnId task_D) (order task_D) =
                     (Inr task_D, board)"
    by (rule moveTask_to_own_order)
  then show ?thesis
    by (simp add: task_D_def mk_task_def)
qed

section \<open>A move to another column and back\<close>

text \<open>
  What an \<^verbatim>\<open>updateMany\<close> that ends without an error has written: every matching
  document, once.
\<close>

lemma inc_each_accepted:
  assumes "distinct_ids s" and "set ts \<subseteq> set s" and "distinct ts"
    and "inc_each ts n s = (None, s')"
  shows "s' = map (\<lambda>d. if d \<in> set ts then d\<lparr>order := order d + n\<rparr> else d) s"
  using assms
proof (induction ts arbitrary: s)
  case Nil
  then show ?case by (simp add: map_idI)
next
  case (Cons t ts)
  let ?t' = "t\<lparr>order := order t + n\<rparr>"
  let ?s1 = "map (\<lambda>d. if d = t then ?t' else d) s"
  have t: "t \<in> set s" and not_t: "\<forall>u\<in>set ts. u \<noteq> t"
    using Cons.prems(2,3) by auto
  have step: "updateOne (\<lambda>d. task_id d = task_id t) (\<lambda>d. d\<lparr>order := order d + n\<rparr>) s = Inr ?s1"
    and rest: "inc_each ts n ?s1 = (None, s')"
    using Cons.prems(4) by (auto simp: updateOne_by_id [OF Cons.prems(1) t] split: if_splits)
  have ids': "map task_id ?s1 = map task_id s"
    by (simp add: comp_def if_distrib [of task_id] cong: if_cong)
  have d1: "distinct_ids ?s1"
    using Cons.prems(1) by (simp only: distinct_ids_def ids')
  have sub: "set ts \<subseteq> set ?s1"
  proof
    fix u assume u: "u \<in> set ts"
    then have "u \<in> set s" "u \<noteq> t" using Cons.prems(2) not_t by auto
    then show "u \<in> set ?s1" by (auto simp: image_iff)
  qed
  have fresh: "?t' \<notin> set ts"
  proof
    assume "?t' \<in> set ts"
    then have "?t' \<in> set s" "?t' \<noteq> t" using Cons.prems(2) not_t by auto
    moreover have "task_id ?t' = task_id t" by simp
    ultimately show False
      using distinct_ids_eq [OF Cons.prems(1) _ t] by blast
  qed
  have "distinct ts" using Cons.prems(3) by simp
  with d1 sub have "s' = map (\<lambda>d. if d \<in> set ts then d\<lparr>order := order d + n\<rparr> else d) ?s1"
    using rest by (rule Cons.IH)
  moreover have "map (\<lambda>d. if d \<in> set ts then d\<lparr>order := order d + n\<rparr> else d) ?s1 =
        map (\<lambda>d. if d \<in> set (t # ts) then d\<lparr>order := order d + n\<rparr> else d) s"
    using fresh not_t by (auto simp: comp_def)
  ultimately show ?case by simp
qed

lemma updateMany_accepted:
  assumes "distinct_ids s" and "updateMany P n s = (None, s')"
  shows "s' = map (\<lambda>d. if P d then d\<lparr>order := order d + n\<rparr> else d) s"
proof -
  let ?ts = "sort_key order (filter P s)"
  have "distinct s"
    using assms(1) by (simp add: distinct_ids_def distinct_map)
  then have "distinct ?ts" by simp
  moreover have "set ?ts \<subseteq> set s" by auto
  moreover have "inc_each ?ts n s = (None, s')"
    using assms(2) by (simp add: updateMany_def)
  ultimately have "s' = map (\<lambda>d. if d \<in> set ?ts then d\<lparr>order := order d + n\<rparr> else d) s"
    using assms(1) by (intro inc_each_accepted)
  moreover have "map (\<lambda>d. if d \<in> set ?ts then d\<lparr>order := order d + n\<rparr> else d) s =
                 map (\<lambda>d. if P d then d\<lparr>order := order d + n\<rparr> else d) s"
    by (rule map_cong) auto
  ultimately show ?thesis by simp
qed

lemma distinct_ids_shift:
  "distinct_ids s \<Longrightarrow>
   distinct_ids (map (\<lambda>d. if P d then d\<lparr>order := order d + n\<rparr> else d) s)"
  by (simp only: distinct_ids_def shifted_ids)

text \<open>
  What a move to another column that returns the task has written: the decrement of the
  old column above the task, the increment of the new column from the new order on, and
  the moved task.
\<close>

lemma move_across_accepted:
  assumes "distinct_ids s" and "findById s i = Inr (Some t)" and "columnId t \<noteq> c"
    and "moveTaskToColumn s i c n = (Inr t', s')"
  shows "t' = t\<lparr>columnId := c, order := n\<rparr> \<and>
         s' = map (\<lambda>d. if task_id d = task_id t then t\<lparr>columnId := c, order := n\<rparr>
                        else if columnId d = columnId t \<and> order t < order d
                          then d\<lparr>order := order d + - 1\<rparr>
                        else if columnId d = c \<and> n \<le> order d then d\<lparr>order := order d + 1\<rparr>
                        else d) s"
proof -
  let ?P1 = "\<lambda>d. columnId d = columnId t \<and> order t < order d"
  let ?P2 = "\<lambda>d. columnId d = c \<and> n \<le> order d"
  let ?t1 = "t\<lparr>columnId := c, order := n\<rparr>"
  let ?sA = "map (\<lambda>d. if ?P1 d then d\<lparr>order := order d + - 1\<rparr> else d) s"
  let ?sB = "map (\<lambda>d. if ?P2 d then d\<lparr>order := order d + 1\<rparr> else d) ?sA"
  have t: "t \<in> set s"
    using assms(2) by (simp add: findById_Some)
  obtain e s12 where shifts: "move_shifts t c n s = (e, s12)"
    by (cases "move_shifts t c n s")
  have "e = None"
    using assms(2,4) shifts by (cases e) (simp_all add: moveTaskToColumn_def)
  have saved: "save ?t1 s12 = Inr s'" and t': "t' = ?t1"
    using assms(2,4) shifts \<open>e = None\<close>
    by (auto simp: moveTaskToColumn_def Let_def split: sum.splits)
  obtain e1 s1 where first: "updateMany ?P1 (- 1) s = (e1, s1)"
    by (cases "updateMany ?P1 (- 1) s")
  have "e1 = None"
    using shifts \<open>e = None\<close> assms(3) first by (cases e1) (simp_all add: move_shifts_def Let_def)
  then have s1: "s1 = ?sA"
    using first updateMany_accepted [OF assms(1)] by simp
  have second: "updateMany ?P2 1 ?sA = (None, s12)"
    using shifts \<open>e = None\<close> assms(3) first \<open>e1 = None\<close> s1
    by (simp add: move_shifts_def Let_def)
  have idsA: "distinct_ids ?sA"
    using assms(1) by (rule distinct_ids_shift)
  have s12: "s12 = ?sB"
    using updateMany_accepted [OF idsA second] .
  have idsB: "distinct_ids ?sB"
    using idsA by (rule distinct_ids_shift)
  have fixed: "(\<lambda>d. if ?P2 d then d\<lparr>order := order d + 1\<rparr> else d)
                 ((\<lambda>d. if ?P1 d then d\<lparr>order := order d + - 1\<rparr> else d) t) = t"
    using assms(3) by simp
  have tB: "t \<in> set ?sB"
    using t fixed by (simp only: set_map image_image) (rule image_eqI [where x = t], simp_all)
  have "updateOne (\<lambda>x. task_id x = task_id t) (\<lambda>x. x\<lparr>columnId := c, order := n\<rparr>) ?sB = Inr s'"
    using saved unfolding s12 by (auto simp: save_def split: if_splits)
  then have s': "s' = map (\<lambda>d. if d = t then ?t1 else d) ?sB"
    unfolding updateOne_by_id [OF idsB tB] by (auto split: if_splits)
  have "map (\<lambda>d. if d = t then ?t1 else d) ?sB =
        map (\<lambda>d. if task_id d = task_id t then ?t1
                  else if ?P1 d then d\<lparr>order := order d + - 1\<rparr>
                  else if ?P2 d then d\<lparr>order := order d + 1\<rparr>
                  else d) s"
  proof -
    have "(if (if ?P2 (if ?P1 d then d\<lparr>order := order d + - 1\<rparr> else d)
               then (if ?P1 d then d\<lparr>order := order d + - 1\<rparr> else d)
                      \<lparr>order := order (if ?P1 d then d\<lparr>order := order d + - 1\<rparr> else d) + 1\<rparr>
               else (if ?P1 d then d\<lparr>order := order d + - 1\<rparr> else d)) = t
           then ?t1
           else (if ?P2 (if ?P1 d then d\<lparr>order := order d + - 1\<rparr> else d)
               then (if ?P1 d then d\<lparr>order := order d + - 1\<rparr> else d)
                      \<lparr>order := order (if ?P1 d then d\<lparr>order := order d + - 1\<rparr> else d) + 1\<rparr>
               else (if ?P1 d then d\<lparr>order := order d + - 1\<rparr> else d))) =
          (if task_id d = task_id t then ?t1
           else if ?P1 d then d\<lparr>order := order d + - 1\<rparr>
           else if ?P2 d then d\<lparr>order := order d + 1\<rparr>
           else d)" if d: "d \<in> set s" for d
    proof (cases "task_id d = task_id t")
      case True
      then have "d = t" using distinct_ids_eq [OF assms(1) d t] by simp
      then show ?thesis using assms(3) by simp
    next
      case False
      have "x \<noteq> t" if "task_id x = task_id d" for x
        using that False by auto
      then show ?thesis
        using False assms(3) by (cases "?P1 d"; cases "?P2 d") simp_all
    qed
    then show ?thesis
      by (simp add: comp_def cong: map_cong)
  qed
  then show ?thesis
    using s' t' by simp
qed

text \<open>
  P4, when both moves are accepted. In a collection with distinct ids, no order shared
  within a column and every order a safe integer, let the stored task \<open>t\<close> be in the
  column \<open>A\<close> with the order \<open>a\<close>. When the move of \<open>t\<close> to another column \<open>B\<close> at the
  order \<open>b\<close> returns the task, and the move back to \<open>A\<close> at \<open>a\<close> returns it as well, the
  second move returns \<open>t\<close> and leaves the collection exactly as it was before the first
  move. (On the board this is the move of C, the last task of todo, behind the last task
  of in-progress and back.)
\<close>

theorem move_across_and_back_when_accepted:
  assumes "distinct_ids s" and "unique_orders s"
    and "findById s i = Inr (Some t)" and "columnId t = A" and "order t = a" and "B \<noteq> A"
    and "moveTaskToColumn s i B b = (Inr t1, s1)"
    and "moveTaskToColumn s1 i A a = (Inr t2, s2)"
    and "\<forall>d\<in>set s. \<bar>order d\<bar> \<le> MAX_SAFE_INTEGER"
  shows "t2 = t \<and> s2 = s"
proof -
  let ?t1 = "t\<lparr>columnId := B, order := b\<rparr>"
  let ?f = "\<lambda>d. if task_id d = task_id t then ?t1
                 else if columnId d = A \<and> a < order d then d\<lparr>order := order d + - 1\<rparr>
                 else if columnId d = B \<and> b \<le> order d then d\<lparr>order := order d + 1\<rparr>
                 else d"
  let ?g = "\<lambda>d. if task_id d = task_id t then ?t1\<lparr>columnId := A, order := a\<rparr>
                 else if columnId d = B \<and> b < order d then d\<lparr>order := order d + - 1\<rparr>
                 else if columnId d = A \<and> a \<le> order d then d\<lparr>order := order d + 1\<rparr>
                 else d"
  have t: "valid_object_id i" "task_id t = map lower_hex i" "t \<in> set s"
    using assms(3) by (simp_all add: findById_Some)
  have restored: "?t1\<lparr>columnId := A, order := a\<rparr> = t"
    using assms(4,5) by simp
  have "columnId t \<noteq> B" using assms(4,6) by simp
  from move_across_accepted [OF assms(1,3) this assms(7)]
  have t1: "t1 = ?t1" and s1: "s1 = map ?f s"
    using assms(4,5) by simp_all
  have ids1: "distinct_ids s1"
  proof -
    have "map task_id (map ?f s) = map task_id s"
      by (induction s) auto
    then show ?thesis
      using assms(1) unfolding s1 by (simp only: distinct_ids_def)
  qed
  have "?t1 \<in> set s1"
    unfolding s1 using t(3) by (simp only: set_map) (rule image_eqI [where x = t], simp_all)
  then have "find (\<lambda>d. task_id d = task_id ?t1) s1 = Some ?t1"
    using ids1 by (intro find_id_member)
  then have found: "findById s1 i = Inr (Some ?t1)"
    using t(1,2) by (simp add: findById_def castObjectId_valid)
  have "columnId ?t1 \<noteq> A" using assms(6) by simp
  from move_across_accepted [OF ids1 found this assms(8)]
  have t2: "t2 = ?t1\<lparr>columnId := A, order := a\<rparr>" and s2: "s2 = map ?g s1"
    by simp_all
  have "?g (?f d) = d" if "d \<in> set s" for d
  proof (cases "task_id d = task_id t")
    case True
    then have "d = t"
      using distinct_ids_eq [OF assms(1) that t(3)] by simp
    then show ?thesis
      using restored by simp
  next
    case False
    then have "d \<noteq> t" by auto
    then have "\<not> (columnId d = A \<and> order d = a)"
      using assms(2) that t(3) assms(4,5)
      by (auto simp: unique_orders_def distinct_map inj_on_def)
    then show ?thesis
      using False assms(6) by auto
  qed
  then have "map ?g (map ?f s) = s"
    by (simp add: map_idI)
  then show ?thesis
    using t2 s2 s1 restored by simp
qed

theorem move_across_and_back_when_accepted_witness:
  "moveTaskToColumn board id_C ''in-progress'' 3 =
     (Inr (mk_task id_C ''Task C'' ''in-progress'' 3),
      [task_A, task_B, mk_task id_C ''Task C'' ''in-progress'' 3, task_D, task_E]) \<and>
   moveTaskToColumn [task_A, task_B, mk_task id_C ''Task C'' ''in-progress'' 3, task_D, task_E]
     id_C ''todo'' 3 = (Inr task_C, board)"
proof -
  let ?s1 = "[task_A, task_B, mk_task id_C ''Task C'' ''in-progress'' 3, task_D, task_E]"
  have first: "moveTaskToColumn board id_C ''in-progress'' 3 =
                 (Inr (mk_task id_C ''Task C'' ''in-progress'' 3), ?s1)"
    by (simp add: eval_defs sample_defs)
  obtain t2 s2 where second: "moveTaskToColumn ?s1 id_C ''todo'' 3 = (Inr t2, s2)"
    by (simp add: eval_defs sample_defs)
  have "distinct_ids board" "unique_orders board"
    by (simp_all add: distinct_ids_def unique_orders_def sample_defs)
  moreover have "findById board id_C = Inr (Some task_C)"
    by (simp add: findById_def castObjectId_def valid_object_id_def lower_hex_def sample_defs)
  moreover have "columnId task_C = ''todo''" "order task_C = 3" "''in-progress'' \<noteq> ''todo''"
    by (simp_all add: sample_defs)
  moreover note first second
  moreover have "\<forall>d\<in>set board. \<bar>order d\<bar> \<le> MAX_SAFE_INTEGER"
    by (simp add: MAX_SAFE_INTEGER_def sample_defs)
  ultimately have "t2 = task_C \<and> s2 = board"
    by (rule move_across_and_back_when_accepted)
  then show ?thesis
    using first second by simp
qed

section \<open>Inserting a task\<close>

lemma open_slot_free:
  "(c, k) \<notin> set (map index_key
     (map (\<lambda>d. if columnId d = c \<and> k \<le> order d then d\<lparr>order := order d + 1\<rparr> else d) s))"
  by (induction s) (auto simp: index_key_def)

text \<open>
  C4, as the code has it. Let the title pass the validators after trimming, the column be
  one of the three, \<open>k\<close> be a positive safe integer, and the id of the new task be fresh.
  If no task of the column has exactly the order \<open>k\<close>, the new task is written at \<open>k\<close> and
  no other task is changed, whether or not some task of the column has a larger order. If
  some task has exactly the order \<open>k\<close>, every task of the column with an order of at least
  \<open>k\<close> is incremented by 1 and then the new task is written at \<open>k\<close>, when the unique index
  accepts each of the increments: it does when no two tasks of the column from \<open>k\<close> on hold
  orders that follow one another (the collection has distinct ids, the orders of the
  column are distinct and those from \<open>k\<close> on are safe integers).
\<close>

theorem insertTask_at_order:
  assumes "validate_title (trim title_in) = []" and "c \<in> set validColumns"
    and "1 \<le> k" and "k \<le> MAX_SAFE_INTEGER" and "new_id \<notin> set (map task_id s)"
  shows "(\<not> (\<exists>d\<in>set s. columnId d = c \<and> order d = k) \<longrightarrow>
            post_tasks s new_id title_in description_in c (JNumber k) =
              (Response 201
                 (TaskData \<lparr>task_id = new_id, title = trim title_in,
                            description = trim description_in, columnId = c, order = k\<rparr>),
               s @ [\<lparr>task_id = new_id, title = trim title_in,
                      description = trim description_in, columnId = c, order = k\<rparr>])) \<and>
         ((\<exists>d\<in>set s. columnId d = c \<and> order d = k) \<and> distinct_ids s \<and>
          distinct (column_orders s c) \<and>
          (\<forall>d\<in>set s. columnId d = c \<and> k \<le> order d \<longrightarrow>
             order d \<le> MAX_SAFE_INTEGER \<and>
             \<not> (\<exists>e\<in>set s. columnId e = c \<and> order e = order d + 1)) \<longrightarrow>
            post_tasks s new_id title_in description_in c (JNumber k) =
              (Response 201
                 (TaskData \<lparr>task_id = new_id, title = trim title_in,
                            description = trim description_in, columnId = c, order = k\<rparr>),
               map (\<lambda>d. if columnId d = c \<and> k \<le> order d then d\<lparr>order := order d + 1\<rparr> else d) s
               @ [\<lparr>task_id = new_id, title = trim title_in,
                    description = trim description_in, columnId = c, order = k\<rparr>]))"
proof -
  let ?new = "\<lparr>task_id = new_id, title = trim title_in, description = trim description_in,
               columnId = c, order = k\<rparr>"
  let ?s1 = "map (\<lambda>d. if columnId d = c \<and> k \<le> order d then d\<lparr>order := order d + 1\<rparr> else d) s"
  have nonempty: "title_in \<noteq> []" "c \<noteq> []"
    using assms(1,2) by (simp_all add: validate_title_trim not_empty_validColumns)
  have valid: "validate ?new = []"
    using assms(1-3) by (rule validate_new)
  have k: "truthy (JNumber k)" "the_number (JNumber k) = k"
    using assms(3) by simp_all
  have free_case: "post_tasks s new_id title_in description_in c (JNumber k) =
                     (Response 201 (TaskData ?new), s @ [?new])"
    if free: "\<not> (\<exists>d\<in>set s. columnId d = c \<and> order d = k)"
  proof -
    have "findOne (\<lambda>d. columnId d = c \<and> order d = k) s = None"
      using free by (simp add: findOne_None)
    moreover have "index_key ?new \<notin> set (map index_key s)"
      using free by (auto simp: index_key_def)
    then have "save_new ?new s = Inr (s @ [?new])"
      using valid assms(5) by (simp add: save_new_def)
    ultimately show ?thesis
      using nonempty assms(2) k by (simp add: post_tasks_def Let_def)
  qed
  have shift_case: "post_tasks s new_id title_in description_in c (JNumber k) =
                      (Response 201 (TaskData ?new), ?s1 @ [?new])"
    if held: "\<exists>d\<in>set s. columnId d = c \<and> order d = k"
      and ids: "distinct_ids s" and col: "distinct (column_orders s c)"
      and apart: "\<forall>d\<in>set s. columnId d = c \<and> k \<le> order d \<longrightarrow>
                    order d \<le> MAX_SAFE_INTEGER \<and>
                    \<not> (\<exists>e\<in>set s. columnId e = c \<and> order e = order d + 1)"
  proof -
    obtain x where found: "findOne (\<lambda>d. columnId d = c \<and> order d = k) s = Some x"
      using held findOne_None [of "\<lambda>d. columnId d = c \<and> order d = k" s] by auto
    have shifted: "updateMany (\<lambda>d. columnId d = c \<and> k \<le> order d) 1 s = (None, ?s1)"
      using ids col apart by (intro updateMany_open_slot) auto
    have "index_key ?new = (c, k)"
      by (simp add: index_key_def)
    then have "index_key ?new \<notin> set (map index_key ?s1)"
      using open_slot_free [of c k s] by simp
    moreover have "new_id \<notin> set (map task_id ?s1)"
      unfolding shifted_ids by (rule assms(5))
    ultimately have "save_new ?new ?s1 = Inr (?s1 @ [?new])"
      using valid by (simp add: save_new_def)
    then show ?thesis
      using found shifted nonempty assms(2) k by (simp add: post_tasks_def Let_def)
  qed
  show ?thesis
    using free_case shift_case by blast
qed

theorem insertTask_at_order_witness:
  "post_tasks [task_A, task_C] id_N ''New task'' [] ''todo'' (JNumber 3) =
     (Response 201 (TaskData (mk_task id_N ''New task'' ''todo'' 3)),
      [task_A, mk_task id_C ''Task C'' ''todo'' 4, mk_task id_N ''New task'' ''todo'' 3]) \<and>
   post_tasks [task_A, task_C] id_N ''New task'' [] ''todo'' (JNumber 5) =
     (Response 201 (TaskData (mk_task id_N ''New task'' ''todo'' 5)),
      [task_A, task_C, mk_task id_N ''New task'' ''todo'' 5])"
proof -
  have title: "validate_title (trim ''New task'') = []"
    by (simp add: validate_title_def trim_def is_space_def)
  have column: "''todo'' \<in> set validColumns"
    by (simp add: validColumns_def)
  have fresh: "id_N \<notin> set (map task_id [task_A, task_C])"
    by (simp add: sample_defs)
  have held: "\<exists>d\<in>set [task_A, task_C]. columnId d = ''todo'' \<and> order d = 3"
    by (simp add: sample_defs)
  have ids: "distinct_ids [task_A, task_C]"
    by (simp add: distinct_ids_def sample_defs)
  have col: "distinct (column_orders [task_A, task_C] ''todo'')"
    by (simp add: column_orders_def sample_defs)
  have apart: "\<forall>d\<in>set [task_A, task_C]. columnId d = ''todo'' \<and> 3 \<le> order d \<longrightarrow>
                 order d \<le> MAX_SAFE_INTEGER \<and>
                 \<not> (\<exists>e\<in>set [task_A, task_C]. columnId e = ''todo'' \<and> order e = order d + 1)"
    by (simp add: MAX_SAFE_INTEGER_def sample_defs)
  have free: "\<not> (\<exists>d\<in>set [task_A, task_C]. columnId d = ''todo'' \<and> order d = 5)"
    by (simp add: sample_defs)
  have "post_tasks [task_A, task_C] id_N ''New task'' [] ''todo'' (JNumber 3) =
          (Response 201
             (TaskData \<lparr>task_id = id_N, title = trim ''New task'', description = trim [],
                        columnId = ''todo'', order = 3\<rparr>),
           map (\<lambda>d. if columnId d = ''todo'' \<and> 3 \<le> order d then d\<lparr>order := order d + 1\<rparr> else d)
             [task_A, task_C]
           @ [\<lparr>task_id = id_N, title = trim ''New task'', description = trim [],
                columnId = ''todo'', order = 3\<rparr>])"
    using insertTask_at_order [OF title column _ _ fresh, of 3 "[]"] held ids col apart
    by (simp add: MAX_SAFE_INTEGER_def)
  moreover have "post_tasks [task_A, task_C] id_N ''New task'' [] ''todo'' (JNumber 5) =
          (Response 201
             (TaskData \<lparr>task_id = id_N, title = trim ''New task'', description = trim [],
                        columnId = ''todo'', order = 5\<rparr>),
           [task_A, task_C]
           @ [\<lparr>task_id = id_N, title = trim ''New task'', description = trim [],
                columnId = ''todo'', order = 5\<rparr>])"
    using insertTask_at_order [OF title column _ _ fresh, of 5 "[]"] free
    by (simp add: MAX_SAFE_INTEGER_def)
  ultimately show ?thesis
    by (simp add: trim_def is_space_def sample_defs)
qed

text \<open>
  C4, the counterexample to the claim as it is written: todo holds A with the order 1 and
  C with the order 3, and a task is inserted at the order 2. C has an order of at least 2,
  but no task has exactly the order 2, so \<^verbatim>\<open>existingTask\<close> is null and nothing is shifted:
  C keeps the order 3.
\<close>

theorem insertTask_gap_counterexample:
  "post_tasks [task_A, task_C] id_N ''New task'' [] ''todo'' (JNumber 2) =
     (Response 201 (TaskData (mk_task id_N ''New task'' ''todo'' 2)),
      [task_A, task_C, mk_task id_N ''New task'' ''todo'' 2]) \<and>
   (\<exists>d\<in>set [task_A, task_C]. columnId d = ''todo'' \<and> 2 \<le> order d)"
  by (simp add: eval_defs sample_defs)

text \<open>
  The insert scenario of the specification: todo holds A with the order 1 and B with the
  order 2, and a task is inserted at the order 1. A task has exactly the order 1, so the
  increment of the tasks from 1 on is written, A first: the write of A from 1 to 2 is
  refused by the unique index while B holds the order 2. The handler answers 400, nothing
  is written, and the new task is not stored.
\<close>

theorem insertTask_spec_scenario_refused:
  "post_tasks [task_A, task_B] id_N ''New task'' [] ''todo'' (JNumber 1) =
     (Response 400 (ErrorMessage ''A task with this order already exists in the column''),
      [task_A, task_B])"
  by (simp add: eval_defs sample_defs)

lemma bit_length_le: "n < 2 ^ k \<Longrightarrow> bit_length n \<le> k"
proof (induction k arbitrary: n)
  case 0
  then show ?case by (simp add: bit_length.simps)
next
  case (Suc k)
  show ?case
  proof (cases "n \<le> 0")
    case True
    then show ?thesis by (simp add: bit_length.simps)
  next
    case False
    have "n div 2 < 2 ^ k" using Suc.prems by simp
    then have "bit_length (n div 2) \<le> k" by (rule Suc.IH)
    then show ?thesis using False by (subst bit_length.simps) simp
  qed
qed

lemma to_double_exact:
  assumes "\<bar>x\<bar> \<le> MAX_SAFE_INTEGER + 1"
  shows "to_double x = x"
proof -
  have "\<bar>x\<bar> \<le> 9007199254740992"
    using assms by (simp add: MAX_SAFE_INTEGER_def)
  then consider "\<bar>x\<bar> < 9007199254740992" | "x = 9007199254740992" | "x = - 9007199254740992"
    by linarith
  then show ?thesis
  proof cases
    case 1
    then have "\<bar>x\<bar> < 2 ^ 53" by simp
    then have "bit_length \<bar>x\<bar> \<le> 53" by (rule bit_length_le)
    then show ?thesis by (simp add: to_double_def Let_def)
  next
    case 2
    then show ?thesis by (simp add: to_double_def Let_def bit_length.simps)
  next
    case 3
    then show ?thesis by (simp add: to_double_def Let_def bit_length.simps)
  qed
qed

lemma getNextOrder_safe:
  assumes "\<forall>x\<in>set (column_orders s c). \<bar>x\<bar> \<le> MAX_SAFE_INTEGER"
  shows "getNextOrder s c =
           (if column_orders s c = [] then 1 else Max (set (column_orders s c)) + 1)"
proof (cases "column_orders s c")
  case Nil
  then show ?thesis by (simp add: getNextOrder_def)
next
  case (Cons x xs)
  have "Max (set (column_orders s c)) \<in> set (column_orders s c)"
    using Cons by (intro Max_in) auto
  then have "\<bar>Max (set (column_orders s c))\<bar> \<le> MAX_SAFE_INTEGER"
    using assms by blast
  then have "\<bar>Max (set (column_orders s c)) + 1\<bar> \<le> MAX_SAFE_INTEGER + 1"
    by linarith
  then have "to_double (Max (set (column_orders s c)) + 1) = Max (set (column_orders s c)) + 1"
    by (rule to_double_exact)
  then show ?thesis
    using Cons by (simp add: getNextOrder_def)
qed

text \<open>
  C10, as the code has it. Let the \<^verbatim>\<open>order\<close> of the request be the number 0 or another
  value that JavaScript takes for false (\<^verbatim>\<open>null\<close>, \<^verbatim>\<open>false\<close>, the empty string), and let the
  orders of the column be safe integers. Then the request is answered as the request
  without an order is; the order that is computed is the largest order of the column plus
  1, or 1 for an empty column; for a title and a column that pass the checks of the
  handler, the task is saved with the computed order, not with the value supplied, which
  is not rejected either; and when the title passes the validators, the id is fresh and
  the orders of the column are positive, the answer is 201 and the new task is appended
  with the computed order, no other task changed.
\<close>

theorem insertTask_order_zero:
  assumes "\<not> truthy v" and "\<forall>x\<in>set (column_orders s c). \<bar>x\<bar> \<le> MAX_SAFE_INTEGER"
  shows "post_tasks s new_id title_in description_in c v =
           post_tasks s new_id title_in description_in c Missing \<and>
         getNextOrder s c =
           (if column_orders s c = [] then 1 else Max (set (column_orders s c)) + 1) \<and>
         (title_in \<noteq> [] \<and> c \<in> set validColumns \<longrightarrow>
            post_tasks s new_id title_in description_in c v =
              (case save_new \<lparr>task_id = new_id, title = trim title_in,
                              description = trim description_in, columnId = c,
                              order = getNextOrder s c\<rparr> s of
                 Inl e \<Rightarrow> (post_catch e, s)
               | Inr s2 \<Rightarrow>
                   (Response 201
                      (TaskData \<lparr>task_id = new_id, title = trim title_in,
                                 description = trim description_in, columnId = c,
                                 order = getNextOrder s c\<rparr>), s2))) \<and>
         (validate_title (trim title_in) = [] \<and> c \<in> set validColumns \<and>
          new_id \<notin> set (map task_id s) \<and> (\<forall>x\<in>set (column_orders s c). 1 \<le> x) \<longrightarrow>
            post_tasks s new_id title_in description_in c v =
              (Response 201
                 (TaskData \<lparr>task_id = new_id, title = trim title_in,
                            description = trim description_in, columnId = c,
                            order = getNextOrder s c\<rparr>),
               s @ [\<lparr>task_id = new_id, title = trim title_in,
                      description = trim description_in, columnId = c,
                      order = getNextOrder s c\<rparr>]))"
proof -
  let ?new = "\<lparr>task_id = new_id, title = trim title_in, description = trim description_in,
               columnId = c, order = getNextOrder s c\<rparr>"
  have absent: "post_tasks s new_id title_in description_in c v =
                  post_tasks s new_id title_in description_in c Missing"
    using assms(1) by (simp add: post_tasks_def)
  have next_order: "getNextOrder s c =
                      (if column_orders s c = [] then 1 else Max (set (column_orders s c)) + 1)"
    using assms(2) by (rule getNextOrder_safe)
  have saved: "post_tasks s new_id title_in description_in c v =
                 (case save_new ?new s of
                    Inl e \<Rightarrow> (post_catch e, s)
                  | Inr s2 \<Rightarrow> (Response 201 (TaskData ?new), s2))"
    if "title_in \<noteq> []" "c \<in> set validColumns"
    using that assms(1) not_empty_validColumns [OF that(2)]
    by (simp add: post_tasks_def Let_def)
  have appended: "post_tasks s new_id title_in description_in c v =
                    (Response 201 (TaskData ?new), s @ [?new])"
    if title: "validate_title (trim title_in) = []" and column: "c \<in> set validColumns"
      and fresh: "new_id \<notin> set (map task_id s)"
      and positive: "\<forall>x\<in>set (column_orders s c). 1 \<le> x"
  proof -
    have above: "x < getNextOrder s c" if "x \<in> set (column_orders s c)" for x
    proof -
      have "x \<le> Max (set (column_orders s c))" using that by simp
      moreover have "column_orders s c \<noteq> []" using that by auto
      ultimately show ?thesis by (simp add: next_order)
    qed
    have "1 \<le> getNextOrder s c"
    proof (cases "column_orders s c")
      case Nil
      then show ?thesis by (simp add: next_order)
    next
      case (Cons x xs)
      then have "x \<in> set (column_orders s c)" by simp
      then show ?thesis using above [of x] positive by force
    qed
    then have valid: "validate ?new = []"
      using title column by (intro validate_new)
    have "index_key ?new \<notin> set (map index_key s)"
    proof
      assume "index_key ?new \<in> set (map index_key s)"
      then obtain d where d: "d \<in> set s" "columnId d = c" "order d = getNextOrder s c"
        by (auto simp: index_key_def)
      have "order d \<in> set (column_orders s c)"
        using d(1,2) by (auto simp: column_orders_def)
      then show False using above [of "order d"] d(3) by simp
    qed
    then have "save_new ?new s = Inr (s @ [?new])"
      using valid fresh by (simp add: save_new_def)
    then show ?thesis
      using saved [OF validate_title_trim [OF title] column] by simp
  qed
  show ?thesis
    using absent next_order saved appended by blast
qed

theorem insertTask_order_zero_witness:
  "post_tasks todo_board id_N ''New task'' [] ''todo'' (JNumber 0) =
     (Response 201 (TaskData (mk_task id_N ''New task'' ''todo'' 4)),
      [task_A, task_B, task_C, mk_task id_N ''New task'' ''todo'' 4]) \<and>
   post_tasks todo_board id_N ''New task'' [] ''todo'' JNull =
     post_tasks todo_board id_N ''New task'' [] ''todo'' Missing \<and>
   post_tasks [] id_N ''New task'' [] ''todo'' JEmptyString =
     (Response 201 (TaskData (mk_task id_N ''New task'' ''todo'' 1)),
      [mk_task id_N ''New task'' ''todo'' 1])"
proof -
  have title: "validate_title (trim ''New task'') = []"
    by (simp add: validate_title_def trim_def is_space_def)
  have column: "''todo'' \<in> set validColumns"
    by (simp add: validColumns_def)
  have orders: "column_orders todo_board ''todo'' = [1, 2, 3]"
    by (simp add: column_orders_def sample_defs)
  have safe: "\<forall>x\<in>set (column_orders todo_board ''todo''). \<bar>x\<bar> \<le> MAX_SAFE_INTEGER"
    and positive: "\<forall>x\<in>set (column_orders todo_board ''todo''). 1 \<le> x"
    by (simp_all add: orders MAX_SAFE_INTEGER_def)
  have fresh: "id_N \<notin> set (map task_id todo_board)"
    by (simp add: sample_defs)
  have zero: "\<not> truthy (JNumber 0)" and null: "\<not> truthy JNull"
    and empty: "\<not> truthy JEmptyString"
    by simp_all
  have next_order: "getNextOrder todo_board ''todo'' = 4"
    using insertTask_order_zero [OF zero safe] by (simp add: orders)
  have "post_tasks todo_board id_N ''New task'' [] ''todo'' (JNumber 0) =
          (Response 201
             (TaskData \<lparr>task_id = id_N, title = trim ''New task'', description = trim [],
                        columnId = ''todo'', order = getNextOrder todo_board ''todo''\<rparr>),
           todo_board
           @ [\<lparr>task_id = id_N, title = trim ''New task'', description = trim [],
                columnId = ''todo'', order = getNextOrder todo_board ''todo''\<rparr>])"
    using insertTask_order_zero [OF zero safe, of id_N "''New task''" "[]"]
      title column fresh positive by blast
  then have "post_tasks todo_board id_N ''New task'' [] ''todo'' (JNumber 0) =
          (Response 201
             (TaskData \<lparr>task_id = id_N, title = trim ''New task'', description = trim [],
                        columnId = ''todo'', order = 4\<rparr>),
           todo_board
           @ [\<lparr>task_id = id_N, title = trim ''New task'', description = trim [],
                columnId = ''todo'', order = 4\<rparr>])"
    by (simp only: next_order)
  then have first: "post_tasks todo_board id_N ''New task'' [] ''todo'' (JNumber 0) =
     (Response 201 (TaskData (mk_task id_N ''New task'' ''todo'' 4)),
      [task_A, task_B, task_C, mk_task id_N ''New task'' ''todo'' 4])"
    by (simp add: trim_def is_space_def mk_task_def todo_board_def)
  have second: "post_tasks todo_board id_N ''New task'' [] ''todo'' JNull =
                  post_tasks todo_board id_N ''New task'' [] ''todo'' Missing"
    using insertTask_order_zero [OF null safe, of id_N "''New task''" "[]"] by blast
  have "\<forall>x\<in>set (column_orders [] ''todo''). \<bar>x\<bar> \<le> MAX_SAFE_INTEGER"
    by (simp add: column_orders_def)
  note empty_column = insertTask_order_zero [OF empty this, of id_N "''New task''" "[]"]
  have "getNextOrder [] ''todo'' = 1"
    using empty_column [THEN conjunct2, THEN conjunct1] by (simp add: column_orders_def)
  moreover have "post_tasks [] id_N ''New task'' [] ''todo'' JEmptyString =
          (Response 201
             (TaskData \<lparr>task_id = id_N, title = trim ''New task'', description = trim [],
                        columnId = ''todo'', order = getNextOrder [] ''todo''\<rparr>),
           [] @ [\<lparr>task_id = id_N, title = trim ''New task'', description = trim [],
                   columnId = ''todo'', order = getNextOrder [] ''todo''\<rparr>])"
    using empty_column [THEN conjunct2, THEN conjunct2, THEN conjunct2] title column
    by (simp add: column_orders_def)
  ultimately have "post_tasks [] id_N ''New task'' [] ''todo'' JEmptyString =
          (Response 201
             (TaskData \<lparr>task_id = id_N, title = trim ''New task'', description = trim [],
                        columnId = ''todo'', order = 1\<rparr>),
           [] @ [\<lparr>task_id = id_N, title = trim ''New task'', description = trim [],
                   columnId = ''todo'', order = 1\<rparr>])"
    by simp
  then have third: "post_tasks [] id_N ''New task'' [] ''todo'' JEmptyString =
     (Response 201 (TaskData (mk_task id_N ''New task'' ''todo'' 1)),
      [mk_task id_N ''New task'' ''todo'' 1])"
    by (simp add: trim_def is_space_def mk_task_def)
  show ?thesis
    using first second third by simp
qed

text \<open>
  C10, the counterexample to the claim as it is written: the column todo holds one task
  with the order \<open>2^53\<close>, an order that the insert accepts. For the order 0 of the request
  the code computes \<^verbatim>\<open>lastTask.order + 1\<close>, which JavaScript rounds to \<open>2^53\<close>: not the
  largest order plus 1 but the largest order itself, which the unique index then refuses,
  and the request is answered with the status 400.
\<close>

theorem insertTask_order_zero_counterexample:
  "getNextOrder [mk_task id_A ''Task A'' ''todo'' 9007199254740992] ''todo'' =
     9007199254740992 \<and>
   Max (set (column_orders [mk_task id_A ''Task A'' ''todo'' 9007199254740992] ''todo'')) + 1 =
     9007199254740993 \<and>
   post_tasks [mk_task id_A ''Task A'' ''todo'' 9007199254740992] id_N ''New task'' [] ''todo''
     (JNumber 0) =
     (Response 400 (ErrorMessage ''A task with this order already exists in the column''),
      [mk_task id_A ''Task A'' ''todo'' 9007199254740992])"
proof -
  have "to_double 9007199254740993 = 9007199254740992"
    by (simp add: to_double_def Let_def bit_length.simps)
  then have "getNextOrder [mk_task id_A ''Task A'' ''todo'' 9007199254740992] ''todo'' =
               9007199254740992"
    by (simp add: getNextOrder_def column_orders_def mk_task_def)
  then show ?thesis
    by (simp add: post_tasks_def save_new_def validate_def validate_title_def
        validate_columnId_def validate_order_def validColumns_def index_key_def
        duplicate_key_def post_catch_def trim_def is_space_def mk_task_def id_A_def id_N_def
        column_orders_def)
qed

section \<open>Bulk reorder: an entry that names no task of the column\<close>

lemma replace_first_keeps: "x \<in> set s \<Longrightarrow> \<not> P x \<Longrightarrow> x \<in> set (replace_first P d' s)"
  by (induction s) auto

lemma replace_first_map:
  "find P s = Some d \<Longrightarrow> g d' = g d \<Longrightarrow> map g (replace_first P d' s) = map g s"
  by (induction s) (auto split: if_splits)

lemma updateOne_other_column:
  assumes "updateOne (\<lambda>d. Q d \<and> columnId d = c) f s = Inr s'"
    and "x \<in> set s" and "columnId x \<noteq> c"
  shows "x \<in> set s'"
proof (cases "find (\<lambda>d. Q d \<and> columnId d = c) s")
  case None
  then show ?thesis using assms by (simp add: updateOne_def)
next
  case (Some d)
  then have "s' = replace_first (\<lambda>d. Q d \<and> columnId d = c) (f d) s"
    using assms(1) by (auto simp: updateOne_def split: if_splits)
  then show ?thesis
    using assms(2,3) by (simp add: replace_first_keeps)
qed

lemma updateOne_id_columns:
  assumes "updateOne P f s = Inr s'"
    and "\<And>d. task_id (f d) = task_id d \<and> columnId (f d) = columnId d"
  shows "map (\<lambda>d. (task_id d, columnId d)) s' = map (\<lambda>d. (task_id d, columnId d)) s"
proof (cases "find P s")
  case None
  then show ?thesis using assms(1) by (simp add: updateOne_def)
next
  case (Some d)
  then have "s' = replace_first P (f d) s"
    using assms(1) by (auto simp: updateOne_def split: if_splits)
  then show ?thesis
    using Some assms(2) by (simp add: replace_first_map)
qed

lemma reorderTasks_append:
  "reorderTasks s c (us @ vs) =
     (case reorderTasks s c us of
        (Some e, s') \<Rightarrow> (Some e, s')
      | (None, s') \<Rightarrow> reorderTasks s' c vs)"
  by (induction us arbitrary: s) (auto split: sum.splits)

lemma reorderTasks_id_columns:
  "map (\<lambda>d. (task_id d, columnId d)) (snd (reorderTasks s c us)) =
     map (\<lambda>d. (task_id d, columnId d)) s"
proof (induction us arbitrary: s)
  case Nil
  then show ?case by simp
next
  case (Cons u us)
  show ?case
  proof (cases "castObjectId (entry_id u)")
    case (Inl e)
    then show ?thesis by simp
  next
    case (Inr oid)
    show ?thesis
    proof (cases "updateOne (\<lambda>d. task_id d = oid \<and> columnId d = c)
                    (\<lambda>d. d\<lparr>order := entry_order u\<rparr>) s")
      case (Inl e)
      then show ?thesis using \<open>castObjectId (entry_id u) = Inr oid\<close> by simp
    next
      case inner: (Inr s')
      then have "map (\<lambda>d. (task_id d, columnId d)) s' = map (\<lambda>d. (task_id d, columnId d)) s"
        by (rule updateOne_id_columns) simp
      then show ?thesis using Inr inner Cons.IH [of s'] by simp
    qed
  qed
qed

lemma reorderTasks_other_column:
  "x \<in> set s \<Longrightarrow> columnId x \<noteq> c \<Longrightarrow> x \<in> set (snd (reorderTasks s c us))"
proof (induction us arbitrary: s)
  case Nil
  then show ?case by simp
next
  case (Cons u us)
  show ?case
  proof (cases "castObjectId (entry_id u)")
    case (Inl e)
    then show ?thesis using Cons.prems by simp
  next
    case (Inr oid)
    show ?thesis
    proof (cases "updateOne (\<lambda>d. task_id d = oid \<and> columnId d = c)
                    (\<lambda>d. d\<lparr>order := entry_order u\<rparr>) s")
      case (Inl e)
      then show ?thesis using \<open>castObjectId (entry_id u) = Inr oid\<close> Cons.prems by simp
    next
      case inner: (Inr s')
      then have "x \<in> set s'"
        using Cons.prems by (rule updateOne_other_column)
      then show ?thesis using Inr inner Cons.IH [of s'] Cons.prems(2) by simp
    qed
  qed
qed

text \<open>
  C9, as the code has it. In a bulk reorder of the column \<open>c\<close>, let \<open>u\<close> be an entry whose
  id is a well-formed ObjectId (24 hexadecimal digits) that is the id of no task of \<open>c\<close>:
  the id is not stored, or its task is in another column. Then the \<^verbatim>\<open>updateOne\<close> of \<open>u\<close>
  matches nothing, writes nothing and raises nothing; wherever \<open>u\<close> stands in the list,
  \<open>reorderTasks\<close> gives what it gives for the list without \<open>u\<close>, result and collection; a
  stored task with the id of \<open>u\<close> is still in the collection, unchanged; when the order
  of \<open>u\<close> is not 0, the handler answers the request as it answers the request without
  \<open>u\<close>; and a request for one of the three columns that holds only \<open>u\<close> is answered 200
  with the collection unchanged. (In the witness the list for the column todo names D, a
  task of the column in-progress, an id that is not stored, and C with the free order 9.)
\<close>

theorem bulkReorder_skips_foreign_entry:
  assumes "valid_object_id (entry_id u)"
    and "\<forall>d\<in>set s. task_id d = map lower_hex (entry_id u) \<longrightarrow> columnId d \<noteq> c"
  shows "updateOne (\<lambda>d. task_id d = map lower_hex (entry_id u) \<and> columnId d = c)
           (\<lambda>d. d\<lparr>order := entry_order u\<rparr>) s = Inr s \<and>
         reorderTasks s c (us @ u # vs) = reorderTasks s c (us @ vs) \<and>
         (\<forall>d\<in>set s. task_id d = map lower_hex (entry_id u) \<longrightarrow>
            d \<in> set (snd (reorderTasks s c (us @ u # vs)))) \<and>
         (entry_order u \<noteq> 0 \<longrightarrow>
            post_reorder s c (us @ u # vs) = post_reorder s c (us @ vs)) \<and>
         (entry_order u \<noteq> 0 \<and> c \<in> set validColumns \<longrightarrow>
            post_reorder s c [u] =
              (Response 200 (TasksData (sort_key order (filter (\<lambda>d. columnId d = c) s))), s))"
proof -
  let ?P = "\<lambda>d. task_id d = map lower_hex (entry_id u) \<and> columnId d = c"
  have cast: "castObjectId (entry_id u) = Inr (map lower_hex (entry_id u))"
    using assms(1) by (rule castObjectId_valid)
  have no_match: "updateOne ?P (\<lambda>d. d\<lparr>order := entry_order u\<rparr>) s' = Inr s'"
    if "map (\<lambda>d. (task_id d, columnId d)) s' = map (\<lambda>d. (task_id d, columnId d)) s" for s'
  proof -
    have "(map lower_hex (entry_id u), c) \<notin> set (map (\<lambda>d. (task_id d, columnId d)) s)"
      using assms(2) by auto
    then have "(map lower_hex (entry_id u), c) \<notin> set (map (\<lambda>d. (task_id d, columnId d)) s')"
      using that by simp
    then have "\<forall>d\<in>set s'. \<not> ?P d"
      by (auto simp: image_iff)
    then show ?thesis
      by (rule updateOne_no_match)
  qed
  have first: "updateOne ?P (\<lambda>d. d\<lparr>order := entry_order u\<rparr>) s = Inr s"
    by (rule no_match) simp
  have step: "reorderTasks s' c (u # vs) = reorderTasks s' c vs"
    if "map (\<lambda>d. (task_id d, columnId d)) s' = map (\<lambda>d. (task_id d, columnId d)) s" for s'
    using cast no_match [OF that] by simp
  have skipped: "reorderTasks s c (us @ u # vs) = reorderTasks s c (us @ vs)"
  proof (cases "reorderTasks s c us")
    case (Pair e s')
    then have "s' = snd (reorderTasks s c us)" by simp
    then have "reorderTasks s' c (u # vs) = reorderTasks s' c vs"
      using reorderTasks_id_columns [of s c us] by (intro step) simp
    then show ?thesis
      using Pair by (cases e) (simp_all add: reorderTasks_append)
  qed
  have unchanged: "d \<in> set (snd (reorderTasks s c (us @ u # vs)))"
    if "d \<in> set s" "task_id d = map lower_hex (entry_id u)" for d
    using that assms(2) by (intro reorderTasks_other_column) auto
  have "entry_id u \<noteq> []"
    using assms(1) by (auto simp: valid_object_id_def)
  then have checks: "list_ex (\<lambda>u. entry_id u = [] \<or> entry_order u = 0) (us @ u # vs) =
                     list_ex (\<lambda>u. entry_id u = [] \<or> entry_order u = 0) (us @ vs)"
    if "entry_order u \<noteq> 0"
    using that by (simp add: list_ex_iff)
  have handler: "post_reorder s c (us @ u # vs) = post_reorder s c (us @ vs)"
    if "entry_order u \<noteq> 0"
    using checks [OF that] skipped by (simp add: post_reorder_def)
  have alone: "post_reorder s c [u] =
                 (Response 200 (TasksData (sort_key order (filter (\<lambda>d. columnId d = c) s))), s)"
    if "entry_order u \<noteq> 0" "c \<in> set validColumns"
    using that \<open>entry_id u \<noteq> []\<close> cast first not_empty_validColumns [OF that(2)]
    by (simp add: post_reorder_def)
  show ?thesis
    using first skipped unchanged handler alone by blast
qed

theorem bulkReorder_skips_foreign_entry_witness:
  "post_reorder board ''todo''
     [\<lparr>entry_id = id_D, entry_order = 7\<rparr>, \<lparr>entry_id = id_N, entry_order = 8\<rparr>,
      \<lparr>entry_id = id_C, entry_order = 9\<rparr>] =
     (Response 200 (TasksData [task_A, task_B, mk_task id_C ''Task C'' ''todo'' 9]),
      [task_A, task_B, mk_task id_C ''Task C'' ''todo'' 9, task_D, task_E]) \<and>
   post_reorder board ''todo'' [\<lparr>entry_id = id_D, entry_order = 7\<rparr>] =
     (Response 200 (TasksData [task_A, task_B, task_C]), board)"
proof -
  let ?d = "\<lparr>entry_id = id_D, entry_order = 7\<rparr>"
  let ?n = "\<lparr>entry_id = id_N, entry_order = 8\<rparr>"
  let ?c = "\<lparr>entry_id = id_C, entry_order = 9\<rparr>"
  have wf: "valid_object_id (entry_id ?d)" "valid_object_id (entry_id ?n)"
    by (simp_all add: valid_object_id_def sample_defs)
  have other_column:
      "\<forall>x\<in>set board. task_id x = map lower_hex (entry_id ?d) \<longrightarrow> columnId x \<noteq> ''todo''"
    and not_stored:
      "\<forall>x\<in>set board. task_id x = map lower_hex (entry_id ?n) \<longrightarrow> columnId x \<noteq> ''todo''"
    by (simp_all add: lower_hex_def sample_defs)
  have column: "''todo'' \<in> set validColumns"
    by (simp add: validColumns_def)
  have "post_reorder board ''todo'' ([] @ ?d # [?n, ?c]) = post_reorder board ''todo'' ([] @ [?n, ?c])"
    using bulkReorder_skips_foreign_entry [OF wf(1) other_column, of "[]" "[?n, ?c]"] by simp
  moreover have "post_reorder board ''todo'' ([] @ ?n # [?c]) = post_reorder board ''todo'' ([] @ [?c])"
    using bulkReorder_skips_foreign_entry [OF wf(2) not_stored, of "[]" "[?c]"] by simp
  moreover have "post_reorder board ''todo'' [?c] =
     (Response 200 (TasksData [task_A, task_B, mk_task id_C ''Task C'' ''todo'' 9]),
      [task_A, task_B, mk_task id_C ''Task C'' ''todo'' 9, task_D, task_E])"
    by (simp add: eval_defs sample_defs)
  moreover have "post_reorder board ''todo'' [?d] =
     (Response 200 (TasksData (sort_key order (filter (\<lambda>d. columnId d = ''todo'') board))), board)"
    using bulkReorder_skips_foreign_entry [OF wf(1) other_column, of "[]" "[]",
        THEN conjunct2, THEN conjunct2, THEN conjunct2, THEN conjunct2] column
    by simp
  moreover have "sort_key order (filter (\<lambda>d. columnId d = ''todo'') board) =
                 [task_A, task_B, task_C]"
    by (simp add: sample_defs)
  ultimately show ?thesis
    by simp
qed

text \<open>
  C9, the counterexample to the claim as it is written: the entry names the id \<^verbatim>\<open>abc\<close>,
  which is the id of no task and passes the check of the handler (it is not empty).
  Mongoose cannot cast it to an ObjectId: the \<^verbatim>\<open>updateOne\<close> throws a \<^verbatim>\<open>CastError\<close>,
  \<open>reorderTasks\<close> throws, and the handler answers 500, not a success.
\<close>

theorem bulkReorder_malformed_id_counterexample:
  "''abc'' \<notin> set (map task_id todo_board) \<and>
   reorderTasks todo_board ''todo'' [\<lparr>entry_id = ''abc'', entry_order = 1\<rparr>] =
     (Some (reorder_error (CastError ''abc'')), todo_board) \<and>
   post_reorder todo_board ''todo'' [\<lparr>entry_id = ''abc'', entry_order = 1\<rparr>] =
     (Response 500 (ErrorMessage ''Failed to reorder tasks''), todo_board)"
  by (simp add: post_reorder_def castObjectId_def valid_object_id_def validColumns_def
      sample_defs)

section \<open>A task that is not stored\<close>

text \<open>
  C7. \<open>moveTaskToColumn\<close> with a well-formed id that is not stored. The \<^verbatim>\<open>Error\<close> with
  the message \<^verbatim>\<open>Task not found\<close> is thrown inside the \<^verbatim>\<open>try\<close>, so the \<^verbatim>\<open>catch\<close> of line 137
  throws it again as a plain \<^verbatim>\<open>Error\<close> with the message
  \<^verbatim>\<open>Failed to move task: Task not found\<close>. Nothing is written. The error has the name and
  the shape of every other failure of the move, here a failed validation (the order 0) and
  a write that the unique index refuses; and the test of the PUT handler,
  \<^verbatim>\<open>error.message === 'Task not found'\<close>, does not match it, so \<open>put_catch\<close> answers 500. The
  handlers themselves look the task up first and answer 404 for this id without writing.
\<close>

theorem moveTask_missing_id_wrapped:
  "moveTaskToColumn todo_board id_N ''todo'' 1 =
     (Inl (Error ''Failed to move task: Task not found''), todo_board) \<and>
   put_catch (Error ''Failed to move task: Task not found'') =
     Response 500 (ErrorMessage ''Failed to update task'') \<and>
   moveTaskToColumn todo_board id_A ''todo'' 0 =
     (Inl (Error ''Failed to move task: Task validation failed: order: Order must be at least 1''),
      todo_board) \<and>
   moveTaskToColumn todo_board id_B ''todo'' 3 = (Inl (move_error duplicate_key), todo_board) \<and>
   name (move_error duplicate_key) = name (Error ''Failed to move task: Task not found'') \<and>
   put_task todo_board id_N ''todo'' 1 =
     (Response 404 (ErrorMessage ''Task not found''), todo_board) \<and>
   delete_task todo_board id_N = (Response 404 (ErrorMessage ''Task not found''), todo_board)"
  by (simp add: eval_defs sample_defs)

text \<open>
  For every well-formed id that is not the id of a stored task, in either case of its
  hexadecimal digits: \<open>moveTaskToColumn\<close> throws the wrapped error and leaves the
  collection as it is, and the DELETE and PUT handlers answer 404 and leave the collection
  as it is.
\<close>

theorem missing_id_no_writes:
  assumes "valid_object_id i" and "map lower_hex i \<notin> set (map task_id s)"
  shows "moveTaskToColumn s i c n = (Inl (Error ''Failed to move task: Task not found''), s) \<and>
         delete_task s i = (Response 404 (ErrorMessage ''Task not found''), s) \<and>
         put_task s i c n = (Response 404 (ErrorMessage ''Task not found''), s)"
  using assms findById_None [OF assms]
  by (simp add: moveTaskToColumn_def delete_task_def put_task_def move_error_def)

theorem missing_id_no_writes_witness:
  "moveTaskToColumn board id_N ''in-progress'' 1 =
     (Inl (Error ''Failed to move task: Task not found''), board) \<and>
   delete_task board id_N = (Response 404 (ErrorMessage ''Task not found''), board) \<and>
   put_task board id_N ''in-progress'' 1 = (Response 404 (ErrorMessage ''Task not found''), board)"
proof -
  have "valid_object_id id_N"
    by (simp add: valid_object_id_def id_N_def)
  moreover have "map lower_hex id_N \<notin> set (map task_id board)"
    by (simp add: lower_hex_def sample_defs)
  ultimately show ?thesis
    using missing_id_no_writes [of id_N board "''in-progress''" 1] by simp
qed

end
